theory Spec2Isabelle
  imports Complex_Main "HOL-Library.Word" "HOL-Library.Sublist" "HOL-Library.Log_Nat"
begin

section \<open>JavaScript strings\<close>

text \<open>
  A JavaScript string is a sequence of UTF-16 code units, and every offset and length of
  \<^verbatim>\<open>renderer.js\<close> counts code units. A code unit is a 16-bit word; a string is a list
  of them. Literals of the source are written \<open>lit ''...''\<close>.
\<close>

type_synonym jschar = "16 word"
type_synonym jsstring = "jschar list"

abbreviation ch :: "char \<Rightarrow> jschar" where
  "ch c \<equiv> of_char c"

definition lit :: "string \<Rightarrow> jsstring" where
  "lit s = map of_char s"

text \<open>
  \<^verbatim>\<open>String.prototype.trim\<close> removes the code units of WhiteSpace and LineTerminator
  from both ends: TAB, LF, VT, FF, CR, SP, NBSP, U+1680, U+2000 to U+200A, U+2028, U+2029,
  U+202F, U+205F, U+3000 and U+FEFF.
\<close>

definition isWhiteSpace :: "jschar \<Rightarrow> bool" where
  "isWhiteSpace c =
     (c \<in> set [0x0009, 0x000A, 0x000B, 0x000C, 0x000D, 0x0020, 0x00A0, 0x1680,
                0x2000, 0x2001, 0x2002, 0x2003, 0x2004, 0x2005, 0x2006, 0x2007,
                0x2008, 0x2009, 0x200A, 0x2028, 0x2029, 0x202F, 0x205F, 0x3000, 0xFEFF])"

definition trimStart :: "jsstring \<Rightarrow> jsstring" where
  "trimStart s = dropWhile isWhiteSpace s"

definition trim :: "jsstring \<Rightarrow> jsstring" where
  "trim s = rev (dropWhile isWhiteSpace (rev (dropWhile isWhiteSpace s)))"

text \<open>
  \<^verbatim>\<open>s.substring(a, b)\<close> on non-negative integers: both indices are clamped to the
  length, and swapped when \<open>a > b\<close>. \<^verbatim>\<open>s.substring(a)\<close> runs to the end.
\<close>

definition substring :: "jsstring \<Rightarrow> nat \<Rightarrow> nat \<Rightarrow> jsstring" where
  "substring s a b = take (max a b - min a b) (drop (min a b) s)"

definition substringFrom :: "jsstring \<Rightarrow> nat \<Rightarrow> jsstring" where
  "substringFrom s a = drop a s"

text \<open>\<^verbatim>\<open>s.split(',')\<close>: the pieces between commas; never the empty array.\<close>

fun splitComma :: "jsstring \<Rightarrow> jsstring list" where
  "splitComma [] = [[]]"
| "splitComma (c # cs) =
     (if c = ch CHR '','' then [] # splitComma cs
      else (case splitComma cs of
              [] \<Rightarrow> [[c]]
            | t # ts \<Rightarrow> (c # t) # ts))"

fun stripPrefix :: "jsstring \<Rightarrow> jsstring \<Rightarrow> jsstring option" where
  "stripPrefix [] s = Some s"
| "stripPrefix (p # ps) [] = None"
| "stripPrefix (p # ps) (c # cs) = (if p = c then stripPrefix ps cs else None)"

section \<open>JavaScript numbers and \<^verbatim>\<open>parseFloat\<close>\<close>

text \<open>
  A Number is a binary64 value: NaN, an infinity, a zero of either sign, or a finite
  non-zero value. \<open>Finite x\<close> is the value \<open>x\<close>, a rational; \<open>Finite 0\<close> is the positive
  zero and \<open>NegZero\<close> the negative one.
\<close>

datatype jsnum = NaN | Finite rat | NegZero | PosInfinity | NegInfinity

definition isNaN :: "jsnum \<Rightarrow> bool" where
  "isNaN n = (n = NaN)"

definition signedZero :: "bool \<Rightarrow> jsnum" where
  "signedZero neg = (if neg then NegZero else Finite 0)"

definition signedInfinity :: "bool \<Rightarrow> jsnum" where
  "signedInfinity neg = (if neg then NegInfinity else PosInfinity)"

text \<open>
  Rounding of an exact result to binary64, to nearest with ties to even. For \<open>x \<noteq> 0\<close>
  let \<open>e\<close> be the exponent of the binade of \<open>\<bar>x\<bar>\<close>, not below that of the subnormals,
  \<open>- 1022\<close>; the values of binary64 there are the multiples of \<open>2 ^ (e - 52)\<close>, and
  \<open>\<bar>x\<bar>\<close> is rounded to the nearest multiple \<open>n\<close>. The result is an infinity when it
  reaches \<open>2 ^ 1024\<close>, which is when \<open>e \<ge> 1024\<close>, or \<open>e = 1023\<close> and \<open>n = 2 ^ 53\<close>;
  it is a zero when \<open>n = 0\<close>. The flag \<open>neg\<close> is the sign of an exact zero.
\<close>

definition pow2 :: "int \<Rightarrow> rat" where
  "pow2 e = (if 0 \<le> e then 2 ^ nat e else 1 / 2 ^ nat (- e))"

definition floorLog2 :: "rat \<Rightarrow> int" where
  "floorLog2 x =
     (let d = bitlen (fst (quotient_of x)) - bitlen (snd (quotient_of x))
      in if pow2 d \<le> x then d else d - 1)"

definition roundHalfEven :: "rat \<Rightarrow> int" where
  "roundHalfEven y =
     (let n = \<lfloor>y\<rfloor>; r = y - of_int n
      in if r < 1 / 2 then n else if 1 / 2 < r then n + 1 else if even n then n else n + 1)"

definition round64 :: "bool \<Rightarrow> rat \<Rightarrow> jsnum" where
  "round64 neg x =
     (if x = 0 then signedZero neg
      else
        (let e = max (floorLog2 \<bar>x\<bar>) (- 1022);
             n = roundHalfEven (\<bar>x\<bar> / pow2 (e - 52))
         in if 1024 \<le> e \<or> (e = 1023 \<and> n = 2 ^ 53) then signedInfinity (x < 0)
            else if n = 0 then signedZero (x < 0)
            else Finite (if x < 0 then - (of_int n * pow2 (e - 52))
                         else of_int n * pow2 (e - 52))))"

fun isNegative :: "jsnum \<Rightarrow> bool" where
  "isNegative NaN = False"
| "isNegative (Finite x) = (x < 0)"
| "isNegative NegZero = True"
| "isNegative PosInfinity = False"
| "isNegative NegInfinity = True"

fun isInfinite :: "jsnum \<Rightarrow> bool" where
  "isInfinite PosInfinity = True"
| "isInfinite NegInfinity = True"
| "isInfinite n = False"

fun isZero :: "jsnum \<Rightarrow> bool" where
  "isZero (Finite x) = (x = 0)"
| "isZero NegZero = True"
| "isZero n = False"

fun valueOf :: "jsnum \<Rightarrow> rat" where
  "valueOf (Finite x) = x"
| "valueOf n = 0"

fun js_neg :: "jsnum \<Rightarrow> jsnum" where
  "js_neg NaN = NaN"
| "js_neg (Finite x) = (if x = 0 then NegZero else Finite (- x))"
| "js_neg NegZero = Finite 0"
| "js_neg PosInfinity = NegInfinity"
| "js_neg NegInfinity = PosInfinity"

text \<open>
  The operators \<^verbatim>\<open>/\<close> and \<^verbatim>\<open>*\<close> of the language on Numbers: the special cases of
  IEEE 754, and otherwise the exact quotient or product rounded to binary64. The sign of
  a zero or an infinity is the exclusive or of the signs of the operands.
\<close>

definition js_div :: "jsnum \<Rightarrow> jsnum \<Rightarrow> jsnum" where
  "js_div a b =
     (if isNaN a \<or> isNaN b then NaN
      else if isInfinite a
        then (if isInfinite b then NaN else signedInfinity (isNegative a \<noteq> isNegative b))
      else if isInfinite b then signedZero (isNegative a \<noteq> isNegative b)
      else if isZero b
        then (if isZero a then NaN else signedInfinity (isNegative a \<noteq> isNegative b))
      else round64 (isNegative a \<noteq> isNegative b) (valueOf a / valueOf b))"

definition js_mul :: "jsnum \<Rightarrow> jsnum \<Rightarrow> jsnum" where
  "js_mul a b =
     (if isNaN a \<or> isNaN b then NaN
      else if isInfinite a \<or> isInfinite b
        then (if isZero a \<or> isZero b then NaN
              else signedInfinity (isNegative a \<noteq> isNegative b))
      else round64 (isNegative a \<noteq> isNegative b) (valueOf a * valueOf b))"

text \<open>
  \<^verbatim>\<open>parseFloat\<close> skips leading white space and reads the longest prefix that is a
  StrDecimalLiteral: an optional sign, then \<^verbatim>\<open>Infinity\<close>, or digits with an optional
  fraction, or a dot followed by digits, each with an optional exponent. With no such
  prefix the result is NaN; otherwise it is the value of the literal rounded to binary64.
\<close>

definition isDigit :: "jschar \<Rightarrow> bool" where
  "isDigit c = (0x30 \<le> c \<and> c \<le> 0x39)"

definition digitsValue :: "jsstring \<Rightarrow> nat" where
  "digitsValue ds = foldl (\<lambda>a c. 10 * a + unat (c - 0x30)) 0 ds"

definition exponentPart :: "jsstring \<Rightarrow> int" where
  "exponentPart s =
     (case s of
        [] \<Rightarrow> 0
      | e # r \<Rightarrow>
          if e = ch CHR ''e'' \<or> e = ch CHR ''E'' then
            (case r of
               [] \<Rightarrow> 0
             | sg # r' \<Rightarrow>
                 if sg = ch CHR ''+'' then int (digitsValue (takeWhile isDigit r'))
                 else if sg = ch CHR ''-'' then - int (digitsValue (takeWhile isDigit r'))
                 else int (digitsValue (takeWhile isDigit r)))
          else 0)"

definition scale10 :: "rat \<Rightarrow> int \<Rightarrow> rat" where
  "scale10 x e = (if 0 \<le> e then x * 10 ^ nat e else x / 10 ^ nat (- e))"

definition unsignedDecimal :: "jsstring \<Rightarrow> jsnum" where
  "unsignedDecimal s =
     (if prefix (lit ''Infinity'') s then PosInfinity
      else
        (let ip = takeWhile isDigit s;
             r = dropWhile isDigit s;
             dotted = (case r of [] \<Rightarrow> False | d # r1 \<Rightarrow> d = ch CHR ''.'');
             fp = (if dotted then takeWhile isDigit (tl r) else []);
             r2 = (if dotted then dropWhile isDigit (tl r) else r)
         in if ip = [] \<and> fp = [] then NaN
            else round64 False (scale10 (of_nat (digitsValue (ip @ fp)))
                                  (exponentPart r2 - int (length fp)))))"

definition parseFloat :: "jsstring \<Rightarrow> jsnum" where
  "parseFloat s =
     (case trimStart s of
        [] \<Rightarrow> NaN
      | c # r \<Rightarrow>
          if c = ch CHR ''+'' then unsignedDecimal r
          else if c = ch CHR ''-'' then js_neg (unsignedDecimal r)
          else unsignedDecimal (c # r))"

section \<open>The annotation extractor: \<^verbatim>\<open>parseBoxesFromTokens\<close>\<close>

text \<open>
  The regular expression of the source is
  \<^verbatim>\<open>/<\|ref\|>([^<]+)<\|\/ref\|><\|det\|>\[\[([^\]]+)\]\]<\|\/det\|>/g\<close>.
  \<open>matchHere s\<close> is one attempt to match it at the start of \<open>s\<close>: the two captured
  groups and the length of the match. The class \<^verbatim>\<open>[^<]+\<close> is followed by a literal that
  starts with \<^verbatim>\<open><\<close>, and \<^verbatim>\<open>[^\]]+\<close> by one that starts with \<^verbatim>\<open>]\<close>, so the greedy run
  up to the first excluded character is the only way each group can match, and
  backtracking never finds another.
\<close>

definition refOpen :: jsstring where
  "refOpen = lit ''<|ref|>''"

definition refCloseDetOpen :: jsstring where
  "refCloseDetOpen = lit ''<|/ref|><|det|>[[''"

definition detClose :: jsstring where
  "detClose = lit '']]<|/det|>''"

text \<open>The text of one tagged region with label text \<open>g1\<close> and coordinate text \<open>g2\<close>.\<close>

definition tagged :: "jsstring \<Rightarrow> jsstring \<Rightarrow> jsstring" where
  "tagged g1 g2 = refOpen @ g1 @ refCloseDetOpen @ g2 @ detClose"

definition matchHere :: "jsstring \<Rightarrow> (jsstring \<times> jsstring \<times> nat) option" where
  "matchHere s =
     (case stripPrefix refOpen s of
        None \<Rightarrow> None
      | Some s1 \<Rightarrow>
          (let g1 = takeWhile (\<lambda>c. c \<noteq> ch CHR ''<'') s1;
               s2 = dropWhile (\<lambda>c. c \<noteq> ch CHR ''<'') s1
           in if g1 = [] then None
              else (case stripPrefix refCloseDetOpen s2 of
                      None \<Rightarrow> None
                    | Some s3 \<Rightarrow>
                        (let g2 = takeWhile (\<lambda>c. c \<noteq> ch CHR '']'') s3;
                             s4 = dropWhile (\<lambda>c. c \<noteq> ch CHR '']'') s3
                         in if g2 = [] then None
                            else (case stripPrefix detClose s4 of
                                    None \<Rightarrow> None
                                  | Some s5 \<Rightarrow> Some (g1, g2, length s - length s5))))))"

text \<open>
  One entry of the source's \<^verbatim>\<open>matches\<close> array. The fields \<^verbatim>\<open>content\<close> and
  \<^verbatim>\<open>coords\<close> are named \<open>mcontent\<close> and \<open>mcoords\<close> here, apart from the fields of a box.
\<close>

record rawMatch =
  mcontent :: jsstring
  mcoords :: jsstring
  matchStart :: nat
  matchEnd :: nat

lemma stripPrefix_iff: "stripPrefix p s = Some r \<longleftrightarrow> s = p @ r"
  by (induction p s rule: stripPrefix.induct) auto

lemma takeWhile_run:
  assumes "\<forall>x\<in>set g. x \<noteq> d"
  shows "takeWhile (\<lambda>c. c \<noteq> d) (g @ d # r) = g"
    and "dropWhile (\<lambda>c. c \<noteq> d) (g @ d # r) = d # r"
  using assms by (simp_all add: takeWhile_append2 dropWhile_append2)

lemma run_split:
  assumes "dropWhile (\<lambda>c. c \<noteq> d) s = t"
  shows "s = takeWhile (\<lambda>c. c \<noteq> d) s @ t"
    and "d \<notin> set (takeWhile (\<lambda>c. c \<noteq> d) s)"
  using assms by (auto dest: set_takeWhileD)

text \<open>
  What a successful attempt means: the text starts with the opening tag, a non-empty
  label without \<^verbatim>\<open><\<close>, the middle tags, a non-empty coordinate text without \<^verbatim>\<open>]\<close>,
  and the closing tag; \<open>n\<close> is the length of all that.
\<close>

lemma matchHere_Some_iff:
  "matchHere s = Some (g1, g2, n) \<longleftrightarrow>
     (\<exists>rest. s = refOpen @ g1 @ refCloseDetOpen @ g2 @ detClose @ rest) \<and>
     g1 \<noteq> [] \<and> ch CHR ''<'' \<notin> set g1 \<and> g2 \<noteq> [] \<and> ch CHR '']'' \<notin> set g2 \<and>
     n = length (refOpen @ g1 @ refCloseDetOpen @ g2 @ detClose)"
  (is "?L \<longleftrightarrow> ?R")
proof
  assume ?L
  then obtain s1 s3 s5 where
    s1: "s = refOpen @ s1" and g1: "g1 = takeWhile (\<lambda>c. c \<noteq> ch CHR ''<'') s1" and
    s3: "dropWhile (\<lambda>c. c \<noteq> ch CHR ''<'') s1 = refCloseDetOpen @ s3" and
    g2: "g2 = takeWhile (\<lambda>c. c \<noteq> ch CHR '']'') s3" and
    s5: "dropWhile (\<lambda>c. c \<noteq> ch CHR '']'') s3 = detClose @ s5" and
    ne: "g1 \<noteq> []" "g2 \<noteq> []" and n: "n = length s - length s5"
    by (auto simp: matchHere_def Let_def stripPrefix_iff split: option.splits if_splits)
  from run_split [OF s3] g1 have a: "s1 = g1 @ refCloseDetOpen @ s3" "ch CHR ''<'' \<notin> set g1"
    by simp_all
  from run_split [OF s5] g2 have b: "s3 = g2 @ detClose @ s5" "ch CHR '']'' \<notin> set g2"
    by simp_all
  from s1 a b ne n show ?R by auto
next
  assume r: ?R
  then obtain rest where s: "s = refOpen @ g1 @ refCloseDetOpen @ g2 @ detClose @ rest"
    by blast
  have mid: "refCloseDetOpen @ g2 @ detClose @ rest
      = ch CHR ''<'' # tl refCloseDetOpen @ g2 @ detClose @ rest"
    by (simp add: refCloseDetOpen_def lit_def)
  have cl: "detClose @ rest = ch CHR '']'' # tl detClose @ rest"
    by (simp add: detClose_def lit_def)
  from r have g1: "\<forall>x\<in>set g1. x \<noteq> ch CHR ''<''" and g2: "\<forall>x\<in>set g2. x \<noteq> ch CHR '']''"
    by auto
  have t1: "takeWhile (\<lambda>c. c \<noteq> ch CHR ''<'') (g1 @ refCloseDetOpen @ g2 @ detClose @ rest) = g1"
    and d1: "dropWhile (\<lambda>c. c \<noteq> ch CHR ''<'') (g1 @ refCloseDetOpen @ g2 @ detClose @ rest)
      = refCloseDetOpen @ g2 @ detClose @ rest"
    unfolding mid using takeWhile_run [OF g1] by simp_all
  have t2: "takeWhile (\<lambda>c. c \<noteq> ch CHR '']'') (g2 @ detClose @ rest) = g2"
    and d2: "dropWhile (\<lambda>c. c \<noteq> ch CHR '']'') (g2 @ detClose @ rest) = detClose @ rest"
    unfolding cl using takeWhile_run [OF g2] by simp_all
  have p1: "stripPrefix refOpen s = Some (g1 @ refCloseDetOpen @ g2 @ detClose @ rest)"
    by (simp add: stripPrefix_iff s)
  have p2: "stripPrefix refCloseDetOpen (refCloseDetOpen @ g2 @ detClose @ rest)
      = Some (g2 @ detClose @ rest)"
    by (simp add: stripPrefix_iff)
  have p3: "stripPrefix detClose (detClose @ rest) = Some rest"
    by (simp add: stripPrefix_iff)
  from r have ne: "g1 \<noteq> []" "g2 \<noteq> []"
    and n: "n = length (refOpen @ g1 @ refCloseDetOpen @ g2 @ detClose)"
    by simp_all
  have "matchHere s = Some (g1, g2, length s - length rest)"
    unfolding matchHere_def p1
    by (simp only: Let_def t1 d1 p2 t2 d2 p3 ne option.case if_False)
  also have "length s - length rest = n"
    by (simp add: s n)
  finally show ?L .
qed

lemma matchHere_length:
  assumes "matchHere s = Some (g1, g2, n)"
  shows "0 < n \<and> n \<le> length s"
  using assms unfolding matchHere_Some_iff by (auto simp: refOpen_def lit_def)

text \<open>
  The \<^verbatim>\<open>while ((match = refDetRegex.exec(tokenText)) !== null)\<close> loop: \<open>scanFrom pos s\<close>
  is the loop with \<^verbatim>\<open>lastIndex = pos\<close> and \<open>s\<close> the text from \<open>pos\<close> on. A failed
  attempt moves one code unit on; a match is recorded and the scan goes on after it.
\<close>

function scanFrom :: "nat \<Rightarrow> jsstring \<Rightarrow> rawMatch list" where
  "scanFrom pos [] = []"
| "scanFrom pos (c # cs) =
     (case matchHere (c # cs) of
        None \<Rightarrow> scanFrom (Suc pos) cs
      | Some (g1, g2, n) \<Rightarrow>
          \<lparr>mcontent = trim g1, mcoords = g2, matchStart = pos, matchEnd = pos + n\<rparr>
            # scanFrom (pos + n) (drop n (c # cs)))"
  by pat_completeness auto
termination
  by (relation "measure (\<lambda>(pos, s). length s)") (auto dest: matchHere_length)

definition collectMatches :: "jsstring \<Rightarrow> rawMatch list" where
  "collectMatches tokenText = scanFrom 0 tokenText"

definition KNOWN_TYPES :: "jsstring list" where
  "KNOWN_TYPES = map lit [''title'', ''sub_title'', ''text'', ''table'', ''image'',
     ''image_caption'', ''figure'', ''caption'', ''formula'', ''list'']"

text \<open>
  \<^verbatim>\<open>matchData.coords.split(',').map(s => parseFloat(s.trim())).filter(n => !isNaN(n))\<close>
\<close>

definition parseCoords :: "jsstring \<Rightarrow> jsnum list" where
  "parseCoords cs = filter (\<lambda>n. \<not> isNaN n) (map (\<lambda>s. parseFloat (trim s)) (splitComma cs))"

text \<open>The test \<^verbatim>\<open>coords.length === 4\<close> of the loop, for the match \<open>m\<close>.\<close>

definition hasFourCoords :: "rawMatch \<Rightarrow> bool" where
  "hasFourCoords m = (length (parseCoords (mcoords m)) = 4)"

text \<open>A box of the source; its field \<^verbatim>\<open>type\<close> is named \<open>boxType\<close>.\<close>

record box =
  content :: jsstring
  textContent :: jsstring
  isType :: bool
  boxType :: jsstring
  x1 :: jsnum
  y1 :: jsnum
  x2 :: jsnum
  y2 :: jsnum
  isComplete :: bool

text \<open>
  The body of the \<^verbatim>\<open>for\<close> loop for the match \<open>m\<close> at index \<open>i\<close>; \<open>next\<close> is
  \<^verbatim>\<open>matches[i + 1]\<close>, or \<open>None\<close> when \<open>i\<close> is the last index. The result is the box
  pushed, or \<open>None\<close> when the coordinates do not parse to four numbers. Nothing in the
  \<^verbatim>\<open>try\<close> block throws, so the \<^verbatim>\<open>catch\<close> has no branch here.
\<close>

definition processMatch :: "jsstring \<Rightarrow> bool \<Rightarrow> rawMatch \<Rightarrow> rawMatch option \<Rightarrow> box option" where
  "processMatch tokenText isOcrComplete m next =
     (let coords = parseCoords (mcoords m) in
      if length coords = 4 then
        (let isTy = (mcontent m \<in> set KNOWN_TYPES);
             txt = (case next of
                      Some n \<Rightarrow> trim (substring tokenText (matchEnd m) (matchStart n))
                    | None \<Rightarrow> trim (substringFrom tokenText (matchEnd m)));
             complete = (case next of
                           Some n \<Rightarrow> 0 < length txt
                         | None \<Rightarrow> isOcrComplete \<and> 0 < length txt)
         in Some \<lparr>content = mcontent m, textContent = txt, isType = isTy,
                   boxType = (if isTy then mcontent m else lit ''text''),
                   x1 = coords ! 0, y1 = coords ! 1, x2 = coords ! 2, y2 = coords ! 3,
                   isComplete = complete\<rparr>)
      else None)"

text \<open>
  The \<^verbatim>\<open>for (let i = 0; i < matches.length; i++)\<close> loop, as a recursion over the matches
  from index \<open>i\<close> on: the head is \<^verbatim>\<open>matches[i]\<close>, the head of the rest is
  \<^verbatim>\<open>matches[i + 1]\<close>, and \<open>i\<close> is the last index when the rest is empty.
\<close>

fun processMatches :: "jsstring \<Rightarrow> bool \<Rightarrow> rawMatch list \<Rightarrow> box list" where
  "processMatches tokenText isOcrComplete [] = []"
| "processMatches tokenText isOcrComplete (m # ms) =
     (case processMatch tokenText isOcrComplete m (case ms of [] \<Rightarrow> None | n # _ \<Rightarrow> Some n) of
        None \<Rightarrow> processMatches tokenText isOcrComplete ms
      | Some b \<Rightarrow> b # processMatches tokenText isOcrComplete ms)"

definition parseBoxesFromTokens :: "jsstring \<Rightarrow> bool \<Rightarrow> box list" where
  "parseBoxesFromTokens tokenText isOcrComplete =
     processMatches tokenText isOcrComplete (collectMatches tokenText)"

text \<open>
  The fields of a box other than \<open>textContent\<close> and \<open>isComplete\<close>: the ones that do
  not depend on what follows the match in the stream.
\<close>

definition stableFields ::
  "box \<Rightarrow> jsstring \<times> bool \<times> jsstring \<times> jsnum \<times> jsnum \<times> jsnum \<times> jsnum" where
  "stableFields b = (content b, isType b, boxType b, x1 b, y1 b, x2 b, y2 b)"

section \<open>The incremental render controller: \<^verbatim>\<open>renderBoxes\<close>\<close>

definition DEEPSEEK_COORD_MAX :: jsnum where
  "DEEPSEEK_COORD_MAX = Finite 999"

text \<open>
  The image dimensions passed to \<^verbatim>\<open>renderBoxes\<close> are JavaScript values: a Number, or
  \<^verbatim>\<open>undefined\<close> (\<open>None\<close>). \<^verbatim>\<open>!v\<close> holds of \<^verbatim>\<open>undefined\<close>, of zero and of NaN.
\<close>

fun truthy :: "jsnum option \<Rightarrow> bool" where
  "truthy None = False"
| "truthy (Some NaN) = False"
| "truthy (Some (Finite x)) = (x \<noteq> 0)"
| "truthy (Some NegZero) = False"
| "truthy (Some PosInfinity) = True"
| "truthy (Some NegInfinity) = True"

fun toNumber :: "jsnum option \<Rightarrow> jsnum" where
  "toNumber None = NaN"
| "toNumber (Some n) = n"

text \<open>\<^verbatim>\<open>(box.x1 / DEEPSEEK_COORD_MAX) * imageWidth\<close>, and the same for the other three.\<close>

definition scaleCoord :: "jsnum \<Rightarrow> jsnum option \<Rightarrow> jsnum" where
  "scaleCoord v extent = js_mul (js_div v DEEPSEEK_COORD_MAX) (toNumber extent)"

text \<open>
  What \<^verbatim>\<open>renderBoxes\<close> appends to the overlay for one box: the scaled corners (the
  \<^verbatim>\<open>x\<close>, \<^verbatim>\<open>y\<close>, \<^verbatim>\<open>width\<close> and \<^verbatim>\<open>height\<close> attributes of the rectangles are
  computed from them), the label text, whether the group gets the click handler and the
  text it copies, and whether the group is dimmed. Colours and fonts are left out.
\<close>

record boxGroup =
  scaledX1 :: jsnum
  scaledY1 :: jsnum
  scaledX2 :: jsnum
  scaledY2 :: jsnum
  displayText :: jsstring
  isClickable :: bool
  copyText :: jsstring
  dimmed :: bool

definition paintBox :: "jsnum option \<Rightarrow> jsnum option \<Rightarrow> jsstring \<Rightarrow> box \<Rightarrow> boxGroup" where
  "paintBox imageWidth imageHeight promptType b =
     (let isInteractive = (promptType = lit ''ocr'' \<or> promptType = lit ''document'');
          clickable =
            (if promptType = lit ''ocr'' then \<not> isType b \<and> isInteractive
             else if promptType = lit ''document''
               then isType b \<and> isComplete b \<and> textContent b \<noteq> [] \<and> isInteractive
             else False);
          copy =
            (if promptType = lit ''ocr'' then content b
             else if promptType = lit ''document'' then textContent b
             else [])
      in \<lparr>scaledX1 = scaleCoord (x1 b) imageWidth,
          scaledY1 = scaleCoord (y1 b) imageHeight,
          scaledX2 = scaleCoord (x2 b) imageWidth,
          scaledY2 = scaleCoord (y2 b) imageHeight,
          displayText =
            (if isType b then boxType b
             else if 30 < length (content b) then substring (content b) 0 30 @ lit ''...''
             else content b),
          isClickable = clickable,
          copyText = copy,
          dimmed = (\<not> clickable \<and> isType b \<and> promptType = lit ''document'' \<and> \<not> isComplete b)\<rparr>)"

text \<open>
  The state \<^verbatim>\<open>renderBoxes\<close> reads and writes: the global \<^verbatim>\<open>lastBoxCount\<close>, the groups
  appended to \<^verbatim>\<open>ocrBoxesOverlay\<close>, and its \<^verbatim>\<open>viewBox\<close> attribute (\<open>None\<close> when absent).
\<close>

record overlayState =
  lastBoxCount :: nat
  overlay :: "boxGroup list"
  viewBox :: "(jsnum option \<times> jsnum option) option"

definition renderBoxes ::
  "box list \<Rightarrow> jsnum option \<Rightarrow> jsnum option \<Rightarrow> jsstring \<Rightarrow> overlayState \<Rightarrow> overlayState" where
  "renderBoxes boxes imageWidth imageHeight promptType st =
     (if \<not> truthy imageWidth \<or> \<not> truthy imageHeight \<or> length boxes = 0 then st
      else
        (let newBoxes = drop (lastBoxCount st) boxes
         in \<lparr>lastBoxCount = length boxes,
             overlay = overlay st @ map (paintBox imageWidth imageHeight promptType) newBoxes,
             viewBox = (case viewBox st of
                          None \<Rightarrow> Some (imageWidth, imageHeight)
                        | Some v \<Rightarrow> Some v)\<rparr>))"

text \<open>
  The reset the source performs when an image is loaded or cleared, when a run starts and
  when a run fails: the overlay is emptied, its \<^verbatim>\<open>viewBox\<close> removed and
  \<^verbatim>\<open>lastBoxCount = 0\<close>.
\<close>

definition clearOverlay :: overlayState where
  "clearOverlay = \<lparr>lastBoxCount = 0, overlay = [], viewBox = None\<rparr>"




text \<open>
  The rectangle \<^verbatim>\<open>viewBoxes\<close> draws on the canvas for one box: the same scaling, with
  the width and height of the image.
\<close>

definition canvasRect :: "jsnum option \<Rightarrow> jsnum option \<Rightarrow> box \<Rightarrow> jsnum \<times> jsnum \<times> jsnum \<times> jsnum" where
  "canvasRect imgWidth imgHeight b =
     (scaleCoord (x1 b) imgWidth, scaleCoord (y1 b) imgHeight,
      scaleCoord (x2 b) imgWidth, scaleCoord (y2 b) imgHeight)"

section \<open>The scan over a growing stream\<close>

text \<open>
  When text is appended to the stream, the matches found so far stay as they are, and new
  ones can only follow them. The one thing to show is that an attempt which fails only
  because the stream ends too early cannot have skipped over a complete match: the
  closing tag of a complete match would have ended the attempt.
\<close>

lemma matchHere_append:
  assumes "matchHere s = Some (g1, g2, n)"
  shows "matchHere (s @ t) = Some (g1, g2, n)"
  using assms unfolding matchHere_Some_iff by auto

lemma first_unit_mismatch:
  assumes "x \<noteq> []" and "d \<notin> set x"
  shows "\<not> prefix (d # p) (x @ y)"
  using assms by (cases x) auto

lemma detClose_not_over_label:
  assumes "x \<noteq> []" and "ch CHR ''<'' \<notin> set x"
  shows "\<not> prefix detClose (x @ refCloseDetOpen @ y)"
proof -
  consider a where "x = [a]" | a b where "x = [a, b]" | a b c z where "x = a # b # c # z"
    using assms(1) by (cases x; cases "tl x"; cases "tl (tl x)") auto
  then show ?thesis
  proof cases
    case 1
    then show ?thesis by (simp add: detClose_def refCloseDetOpen_def lit_def)
  next
    case 2
    then show ?thesis by (simp add: detClose_def refCloseDetOpen_def lit_def)
  next
    case 3
    with assms(2) have c: "c \<noteq> ch CHR ''<''" by auto
    have "detClose = ch CHR '']'' # ch CHR '']'' # ch CHR ''<'' # drop 3 detClose"
      by (simp add: detClose_def lit_def)
    then obtain p where p: "detClose = ch CHR '']'' # ch CHR '']'' # ch CHR ''<'' # p" ..
    from c show ?thesis unfolding 3 p
      by (simp only: append_Cons Cons_prefix_Cons) blast
  qed
qed

lemma suffix_append_cases:
  assumes "suffix u (a @ b)"
  shows "(\<exists>x. u = x @ b \<and> suffix x a \<and> x \<noteq> []) \<or> suffix u b"
proof -
  from assms consider "suffix u b" | x where "u = x @ b" "suffix x a"
    unfolding suffix_append by blast
  then show ?thesis
  proof cases
    case 1
    then show ?thesis ..
  next
    case 2
    show ?thesis
    proof (cases "x = []")
      case True
      with 2(1) show ?thesis by simp
    next
      case False
      with 2 show ?thesis by blast
    qed
  qed
qed

lemma detClose_only_at_end:
  assumes l: "ch CHR ''<'' \<notin> set g1" and c: "ch CHR '']'' \<notin> set g2"
    and eq: "refOpen @ g1 @ refCloseDetOpen @ g2 @ detClose = A @ detClose @ B"
  shows "B = []"
proof -
  define u where "u = detClose @ B"
  have dc: "detClose = ch CHR '']'' # tl detClose"
    by (simp add: detClose_def lit_def)
  have pu: "prefix detClose u"
    by (simp add: u_def)
  have hd_free: "\<not> prefix detClose (x @ y)" if "x \<noteq> []" "ch CHR '']'' \<notin> set x" for x y
    using first_unit_mismatch [OF that] dc by metis
  have "suffix u (refOpen @ g1 @ refCloseDetOpen @ g2 @ detClose)"
    unfolding eq u_def by (simp add: suffix_def)
  then consider
      (tag) x where "u = x @ g1 @ refCloseDetOpen @ g2 @ detClose" "suffix x refOpen" "x \<noteq> []"
    | (label) x where "u = x @ refCloseDetOpen @ g2 @ detClose" "suffix x g1" "x \<noteq> []"
    | (mid) x where "u = x @ g2 @ detClose" "suffix x refCloseDetOpen" "x \<noteq> []"
    | (coords) x where "u = x @ detClose" "suffix x g2" "x \<noteq> []"
    | (tail) "suffix u detClose"
  proof -
    assume s0: "suffix u (refOpen @ g1 @ refCloseDetOpen @ g2 @ detClose)"
    assume c1: "\<And>x. u = x @ g1 @ refCloseDetOpen @ g2 @ detClose \<Longrightarrow> suffix x refOpen \<Longrightarrow> x \<noteq> [] \<Longrightarrow> thesis"
    assume c2: "\<And>x. u = x @ refCloseDetOpen @ g2 @ detClose \<Longrightarrow> suffix x g1 \<Longrightarrow> x \<noteq> [] \<Longrightarrow> thesis"
    assume c3: "\<And>x. u = x @ g2 @ detClose \<Longrightarrow> suffix x refCloseDetOpen \<Longrightarrow> x \<noteq> [] \<Longrightarrow> thesis"
    assume c4: "\<And>x. u = x @ detClose \<Longrightarrow> suffix x g2 \<Longrightarrow> x \<noteq> [] \<Longrightarrow> thesis"
    assume c5: "suffix u detClose \<Longrightarrow> thesis"
    from suffix_append_cases [OF s0] show thesis
    proof (elim disjE exE conjE)
      assume s1: "suffix u (g1 @ refCloseDetOpen @ g2 @ detClose)"
      from suffix_append_cases [OF s1] show thesis
      proof (elim disjE exE conjE)
        assume s2: "suffix u (refCloseDetOpen @ g2 @ detClose)"
        from suffix_append_cases [OF s2] show thesis
        proof (elim disjE exE conjE)
          assume s3: "suffix u (g2 @ detClose)"
          from suffix_append_cases [OF s3] show thesis
            by (elim disjE exE conjE) (erule (2) c4, erule c5)
        qed (erule (2) c3)
      qed (erule (2) c2)
    qed (erule (2) c1)
  qed
  then have "u = detClose"
  proof cases
    case tag
    from tag(2) have "set x \<subseteq> set refOpen" by (rule set_mono_suffix)
    then have "ch CHR '']'' \<notin> set x" by (auto simp: refOpen_def lit_def)
    from hd_free [OF tag(3) this] pu tag(1) show ?thesis by simp
  next
    case label
    from label(2) have "set x \<subseteq> set g1" by (rule set_mono_suffix)
    with l have "ch CHR ''<'' \<notin> set x" by auto
    from detClose_not_over_label [OF label(3) this] pu label(1) show ?thesis by simp
  next
    case mid
    from mid(2) have "set x \<subseteq> set refCloseDetOpen" by (rule set_mono_suffix)
    then have "ch CHR '']'' \<notin> set x" by (auto simp: refCloseDetOpen_def lit_def)
    from hd_free [OF mid(3) this] pu mid(1) show ?thesis by simp
  next
    case coords
    from coords(2) have "set x \<subseteq> set g2" by (rule set_mono_suffix)
    with c have "ch CHR '']'' \<notin> set x" by auto
    from hd_free [OF coords(3) this] pu coords(1) show ?thesis by simp
  next
    case tail
    then have "length u \<le> length detClose" by (rule suffix_length_le)
    moreover from pu have "length detClose \<le> length u" by (rule prefix_length_le)
    ultimately show ?thesis using pu by (auto simp: prefix_def)
  qed
  then show ?thesis by (simp add: u_def)
qed

lemma pending_attempt_hides_nothing:
  assumes none: "matchHere s = None" and some: "matchHere (s @ t) = Some (g1, g2, n)"
  shows "matchHere (drop j s) = None"
proof (rule ccontr)
  assume "matchHere (drop j s) \<noteq> None"
  then obtain h1 h2 k where "matchHere (drop j s) = Some (h1, h2, k)" by auto
  then obtain rest' where d: "drop j s = refOpen @ h1 @ refCloseDetOpen @ h2 @ detClose @ rest'"
    unfolding matchHere_Some_iff by blast
  from some obtain rest where
    st: "s @ t = (refOpen @ g1 @ refCloseDetOpen @ g2 @ detClose) @ rest"
    and g: "g1 \<noteq> []" "ch CHR ''<'' \<notin> set g1" "g2 \<noteq> []" "ch CHR '']'' \<notin> set g2"
    unfolding matchHere_Some_iff by auto
  from st obtain us where
    "(s = (refOpen @ g1 @ refCloseDetOpen @ g2 @ detClose) @ us \<and> us @ t = rest)
      \<or> (s @ us = refOpen @ g1 @ refCloseDetOpen @ g2 @ detClose \<and> t = us @ rest)"
    unfolding append_eq_append_conv2 by blast
  then show False
  proof
    assume "s = (refOpen @ g1 @ refCloseDetOpen @ g2 @ detClose) @ us \<and> us @ t = rest"
    then have "matchHere s = Some (g1, g2, length (refOpen @ g1 @ refCloseDetOpen @ g2 @ detClose))"
      using g unfolding matchHere_Some_iff by auto
    with none show False by simp
  next
    assume w: "s @ us = refOpen @ g1 @ refCloseDetOpen @ g2 @ detClose \<and> t = us @ rest"
    have "s = take j s @ drop j s" by simp
    then have "s @ us = (take j s @ refOpen @ h1 @ refCloseDetOpen @ h2) @ detClose @ (rest' @ us)"
      unfolding d by simp
    with w have "refOpen @ g1 @ refCloseDetOpen @ g2 @ detClose
        = (take j s @ refOpen @ h1 @ refCloseDetOpen @ h2) @ detClose @ (rest' @ us)"
      by simp
    from detClose_only_at_end [OF g(2) g(4) this] have "us = []" by simp
    with w have "s = (refOpen @ g1 @ refCloseDetOpen @ g2 @ detClose) @ []" by simp
    then have "matchHere s = Some (g1, g2, length (refOpen @ g1 @ refCloseDetOpen @ g2 @ detClose))"
      using g unfolding matchHere_Some_iff by auto
    with none show False by simp
  qed
qed

lemma scanFrom_no_match:
  assumes "\<And>j. matchHere (drop j s) = None"
  shows "scanFrom pos s = []"
  using assms
proof (induction s arbitrary: pos)
  case Nil
  then show ?case by simp
next
  case (Cons c cs)
  from Cons.prems [of 0] have h: "matchHere (c # cs) = None" by simp
  have "matchHere (drop j cs) = None" for j
    using Cons.prems [of "Suc j"] by simp
  from Cons.IH [OF this] h show ?case by simp
qed

lemma scanFrom_append:
  "prefix (scanFrom pos s) (scanFrom pos (s @ t))"
proof (induction pos s rule: scanFrom.induct)
  case (1 pos)
  then show ?case by simp
next
  case (2 pos c cs)
  show ?case
  proof (cases "matchHere (c # cs)")
    case None
    show ?thesis
    proof (cases "matchHere ((c # cs) @ t)")
      case n2: None
      with None 2(1) show ?thesis by simp
    next
      case (Some r)
      obtain g1 g2 n where "r = (g1, g2, n)" by (cases r) auto
      with Some have "matchHere ((c # cs) @ t) = Some (g1, g2, n)" by simp
      from pending_attempt_hides_nothing [OF None this]
      have hid: "matchHere (drop j (c # cs)) = None" for j .
      have "matchHere (drop j cs) = None" for j
        using hid [of "Suc j"] by simp
      then have "scanFrom (Suc pos) cs = []" by (rule scanFrom_no_match)
      with None show ?thesis by simp
    qed
  next
    case (Some r)
    obtain g1 g2 n where r: "r = (g1, g2, n)" by (cases r) auto
    with Some have m: "matchHere (c # cs) = Some (g1, g2, n)" by simp
    from matchHere_length [OF m] have "n \<le> length (c # cs)" by simp
    then have dr: "drop n ((c # cs) @ t) = drop n (c # cs) @ t"
      unfolding drop_append by simp
    from matchHere_append [OF m] have m2: "matchHere ((c # cs) @ t) = Some (g1, g2, n)" .
    from 2(2) [OF Some r [symmetric] refl] have "prefix (scanFrom (pos + n) (drop n (c # cs)))
        (scanFrom (pos + n) (drop n (c # cs) @ t))" .
    with m m2 dr show ?thesis by (simp del: drop_Suc_Cons)
  qed
qed

section \<open>What the scan records, and which matches become boxes\<close>

lemma scanFrom_matches:
  assumes "m \<in> set (scanFrom pos s)"
  shows "pos \<le> matchStart m \<and> matchEnd m \<le> pos + length s \<and>
    (\<exists>g1 g2. take (matchEnd m - matchStart m) (drop (matchStart m - pos) s) = tagged g1 g2 \<and>
       matchEnd m = matchStart m + length (tagged g1 g2) \<and>
       g1 \<noteq> [] \<and> ch CHR ''<'' \<notin> set g1 \<and> g2 \<noteq> [] \<and> ch CHR '']'' \<notin> set g2 \<and>
       mcontent m = trim g1 \<and> mcoords m = g2)"
  using assms
proof (induction pos s rule: scanFrom.induct)
  case (1 pos)
  then show ?case by simp
next
  case (2 pos c cs)
  show ?case
  proof (cases "matchHere (c # cs)")
    case None
    with 2(3) have "m \<in> set (scanFrom (Suc pos) cs)" by simp
    from 2(1) [OF None this] obtain g1 g2 where
      b: "Suc pos \<le> matchStart m" "matchEnd m \<le> Suc pos + length cs" and
      t: "take (matchEnd m - matchStart m) (drop (matchStart m - Suc pos) cs) = tagged g1 g2" and
      r: "matchEnd m = matchStart m + length (tagged g1 g2)"
        "g1 \<noteq> []" "ch CHR ''<'' \<notin> set g1" "g2 \<noteq> []" "ch CHR '']'' \<notin> set g2"
        "mcontent m = trim g1" "mcoords m = g2"
      by blast
    from b(1) have "matchStart m - pos = Suc (matchStart m - Suc pos)" by simp
    then have "drop (matchStart m - pos) (c # cs) = drop (matchStart m - Suc pos) cs"
      by simp
    with t have "take (matchEnd m - matchStart m) (drop (matchStart m - pos) (c # cs)) = tagged g1 g2"
      by simp
    with b r show ?thesis by auto
  next
    case (Some r)
    obtain g1 g2 n where r: "r = (g1, g2, n)" by (cases r) auto
    with Some have mh: "matchHere (c # cs) = Some (g1, g2, n)" by simp
    from matchHere_length [OF mh] have n: "0 < n" "n \<le> length (c # cs)" by simp_all
    from mh obtain rest where
      s: "c # cs = tagged g1 g2 @ rest" and
      g: "g1 \<noteq> []" "ch CHR ''<'' \<notin> set g1" "g2 \<noteq> []" "ch CHR '']'' \<notin> set g2"
        "n = length (tagged g1 g2)"
      unfolding matchHere_Some_iff tagged_def by auto
    from 2(3) mh have "m = \<lparr>mcontent = trim g1, mcoords = g2, matchStart = pos, matchEnd = pos + n\<rparr>
        \<or> m \<in> set (scanFrom (pos + n) (drop n (c # cs)))"
      by (simp del: drop_Suc_Cons)
    then show ?thesis
    proof
      assume m: "m = \<lparr>mcontent = trim g1, mcoords = g2, matchStart = pos, matchEnd = pos + n\<rparr>"
      have "take n (c # cs) = tagged g1 g2"
        unfolding s g(5) by simp
      with m g n show ?thesis by auto
    next
      assume "m \<in> set (scanFrom (pos + n) (drop n (c # cs)))"
      from 2(2) [OF Some r [symmetric] refl this] obtain h1 h2 where
        b: "pos + n \<le> matchStart m" "matchEnd m \<le> pos + n + length (drop n (c # cs))" and
        t: "take (matchEnd m - matchStart m) (drop (matchStart m - (pos + n)) (drop n (c # cs)))
              = tagged h1 h2" and
        r: "matchEnd m = matchStart m + length (tagged h1 h2)"
          "h1 \<noteq> []" "ch CHR ''<'' \<notin> set h1" "h2 \<noteq> []" "ch CHR '']'' \<notin> set h2"
          "mcontent m = trim h1" "mcoords m = h2"
        by blast
      from b(1) have "matchStart m - (pos + n) + n = matchStart m - pos" by simp
      then have "drop (matchStart m - (pos + n)) (drop n (c # cs)) = drop (matchStart m - pos) (c # cs)"
        unfolding drop_drop by simp
      with t have t': "take (matchEnd m - matchStart m) (drop (matchStart m - pos) (c # cs)) = tagged h1 h2"
        by simp
      from b n have "pos \<le> matchStart m" "matchEnd m \<le> pos + length (c # cs)"
        by simp_all
      with t' r show ?thesis by blast
    qed
  qed
qed

lemma scanFrom_ordered:
  "sorted_wrt (\<lambda>m n. matchEnd m \<le> matchStart n) (scanFrom pos s)"
proof (induction pos s rule: scanFrom.induct)
  case (1 pos)
  then show ?case by simp
next
  case (2 pos c cs)
  show ?case
  proof (cases "matchHere (c # cs)")
    case None
    with 2(1) show ?thesis by simp
  next
    case (Some r)
    obtain g1 g2 n where r: "r = (g1, g2, n)" by (cases r) auto
    with Some have mh: "matchHere (c # cs) = Some (g1, g2, n)" by simp
    have "pos + n \<le> matchStart k" if "k \<in> set (scanFrom (pos + n) (drop n (c # cs)))" for k
      using scanFrom_matches [OF that] by simp
    with 2(2) [OF Some r [symmetric] refl] mh show ?thesis
      by (simp del: drop_Suc_Cons)
  qed
qed

lemma processMatch_None_iff:
  "processMatch tokenText fl m nx = None \<longleftrightarrow> \<not> hasFourCoords m"
  by (simp add: processMatch_def hasFourCoords_def Let_def)

lemma processMatch_SomeD:
  assumes "processMatch tokenText fl m nx = Some b"
  shows "hasFourCoords m"
proof (rule ccontr)
  assume "\<not> hasFourCoords m"
  then have "processMatch tokenText fl m nx = None" by (simp add: processMatch_None_iff)
  with assms show False by simp
qed

lemma processMatch_SomeI:
  assumes "hasFourCoords m"
  obtains b where "processMatch tokenText fl m nx = Some b"
proof (cases "processMatch tokenText fl m nx")
  case None
  with assms show ?thesis by (simp add: processMatch_None_iff)
next
  case (Some b)
  then show ?thesis by (rule that)
qed

lemma length_processMatches:
  "length (processMatches tokenText fl ms) = length (filter hasFourCoords ms)"
proof (induction ms)
  case Nil
  then show ?case by simp
next
  case (Cons m ms)
  show ?case
  proof (cases "hasFourCoords m")
    case True
    then obtain b where
      "processMatch tokenText fl m (case ms of [] \<Rightarrow> None | n # _ \<Rightarrow> Some n) = Some b"
      by (rule processMatch_SomeI)
    with True Cons.IH show ?thesis by simp
  next
    case False
    then have
      "processMatch tokenText fl m (case ms of [] \<Rightarrow> None | n # _ \<Rightarrow> Some n) = None"
      by (simp add: processMatch_None_iff)
    with False Cons.IH show ?thesis by simp
  qed
qed

lemma processMatches_nth:
  assumes "i < length (processMatches tokenText fl ms)"
  shows "\<exists>pre m post. ms = pre @ m # post \<and> i = length (filter hasFourCoords pre) \<and>
     processMatch tokenText fl m (case post of [] \<Rightarrow> None | n # _ \<Rightarrow> Some n)
       = Some (processMatches tokenText fl ms ! i)"
  using assms
proof (induction ms arbitrary: i)
  case Nil
  then show ?case by simp
next
  case (Cons m ms)
  show ?case
  proof (cases "processMatch tokenText fl m (case ms of [] \<Rightarrow> None | n # _ \<Rightarrow> Some n)")
    case None
    then have nv: "\<not> hasFourCoords m" by (simp add: processMatch_None_iff)
    from None Cons.prems have "i < length (processMatches tokenText fl ms)" by simp
    from Cons.IH [OF this] obtain pre k post where
      "ms = pre @ k # post" "i = length (filter hasFourCoords pre)"
      "processMatch tokenText fl k (case post of [] \<Rightarrow> None | n # _ \<Rightarrow> Some n)
         = Some (processMatches tokenText fl ms ! i)"
      by blast
    with None nv have "m # ms = (m # pre) @ k # post \<and> i = length (filter hasFourCoords (m # pre)) \<and>
      processMatch tokenText fl k (case post of [] \<Rightarrow> None | n # _ \<Rightarrow> Some n)
         = Some (processMatches tokenText fl (m # ms) ! i)"
      by simp
    then show ?thesis by blast
  next
    case (Some b)
    then have v: "hasFourCoords m" by (rule processMatch_SomeD)
    show ?thesis
    proof (cases i)
      case 0
      with Some have "m # ms = [] @ m # ms \<and> i = length (filter hasFourCoords []) \<and>
        processMatch tokenText fl m (case ms of [] \<Rightarrow> None | n # _ \<Rightarrow> Some n)
          = Some (processMatches tokenText fl (m # ms) ! i)"
        by simp
      then show ?thesis by blast
    next
      case (Suc j)
      with Some Cons.prems have "j < length (processMatches tokenText fl ms)" by simp
      from Cons.IH [OF this] obtain pre k post where
        "ms = pre @ k # post" "j = length (filter hasFourCoords pre)"
        "processMatch tokenText fl k (case post of [] \<Rightarrow> None | n # _ \<Rightarrow> Some n)
           = Some (processMatches tokenText fl ms ! j)"
        by blast
      with Some v Suc have "m # ms = (m # pre) @ k # post \<and> i = length (filter hasFourCoords (m # pre)) \<and>
        processMatch tokenText fl k (case post of [] \<Rightarrow> None | n # _ \<Rightarrow> Some n)
           = Some (processMatches tokenText fl (m # ms) ! i)"
        by simp
      then show ?thesis by blast
    qed
  qed
qed

section \<open>Rounding to binary64\<close>

text \<open>
  The exponent found by \<open>floorLog2\<close> is the one of the binade, so \<open>round64\<close> rounds to
  the nearest value of binary64: integers below \<open>2 ^ 53\<close> are kept as they are, and in
  the normal range the result differs from the exact value by at most the fraction
  \<open>2 ^ - 53\<close> of it.
\<close>

lemma pow2_powi: "pow2 e = 2 powi e"
  by (simp add: pow2_def power_int_def power_one_over [symmetric] inverse_eq_divide)

lemma pow2_pos: "0 < pow2 e"
  by (simp add: pow2_def)

lemma pow2_diff: "pow2 (a - b) = pow2 a / pow2 b"
  by (simp add: pow2_powi power_int_diff)

lemma pow2_Suc: "pow2 (e + 1) = 2 * pow2 e"
  by (simp add: pow2_powi power_int_add)

lemma bitlen_pow2_bounds:
  assumes "0 < n"
  shows "pow2 (bitlen n - 1) \<le> of_int n" and "of_int n < pow2 (bitlen n)"
proof -
  from assms have b: "1 \<le> bitlen n" by (auto simp: bitlen_alt_def)
  from bitlen_bounds [OF assms]
  have l: "(2::int) ^ nat (bitlen n - 1) \<le> n" and u: "n < 2 ^ nat (bitlen n)" by simp_all
  from l have "(of_int (2 ^ nat (bitlen n - 1)) :: rat) \<le> of_int n"
    by (simp only: of_int_le_iff)
  with b show "pow2 (bitlen n - 1) \<le> of_int n" by (simp add: pow2_def)
  from u have "(of_int n :: rat) < of_int (2 ^ nat (bitlen n))"
    by (simp only: of_int_less_iff)
  with b show "of_int n < pow2 (bitlen n)" by (simp add: pow2_def)
qed

lemma floorLog2_bounds:
  assumes "0 < x"
  shows "pow2 (floorLog2 x) \<le> x \<and> x < pow2 (floorLog2 x + 1)"
proof -
  obtain p q where pq: "quotient_of x = (p, q)" by (cases "quotient_of x") auto
  then have q: "0 < q" by (rule quotient_of_denom_pos)
  from pq have x: "x = of_int p / of_int q" by (rule quotient_of_div)
  with assms q have p: "0 < p" by (simp add: zero_less_divide_iff)
  define d where "d = bitlen p - bitlen q"
  note bp = bitlen_pow2_bounds [OF p] and bq = bitlen_pow2_bounds [OF q]
  have qpos: "(0::rat) < of_int q" using q by simp
  have lower: "pow2 (d - 1) \<le> x"
  proof -
    have "pow2 (d - 1) = pow2 (bitlen p - 1) / pow2 (bitlen q)"
      by (simp add: d_def pow2_diff [symmetric] algebra_simps)
    also have "\<dots> \<le> of_int p / pow2 (bitlen q)"
      using bp(1) pow2_pos [of "bitlen q"] by (intro divide_right_mono) simp_all
    also have "\<dots> \<le> of_int p / of_int q"
      using bq(2) p qpos pow2_pos [of "bitlen q"] by (intro divide_left_mono) simp_all
    finally show ?thesis by (simp add: x)
  qed
  have upper: "x < pow2 (d + 1)"
  proof -
    have "x = of_int p / of_int q" by (rule x)
    also have "\<dots> < pow2 (bitlen p) / of_int q"
      using bp(2) qpos by (intro divide_strict_right_mono) simp_all
    also have "\<dots> \<le> pow2 (bitlen p) / pow2 (bitlen q - 1)"
      using bq(1) pow2_pos [of "bitlen p"] pow2_pos [of "bitlen q - 1"] qpos
      by (intro divide_left_mono) (simp_all add: less_imp_le)
    also have "\<dots> = pow2 (d + 1)"
      by (simp add: d_def pow2_diff [symmetric] algebra_simps)
    finally show ?thesis .
  qed
  have fl: "floorLog2 x = (if pow2 d \<le> x then d else d - 1)"
    by (simp add: floorLog2_def pq d_def)
  show ?thesis
  proof (cases "pow2 d \<le> x")
    case True
    with fl upper show ?thesis by simp
  next
    case False
    with fl lower show ?thesis by simp
  qed
qed

lemma roundHalfEven_of_int: "roundHalfEven (of_int k) = k"
  by (simp add: roundHalfEven_def)

lemma floorLog2_of_int:
  assumes "0 < n"
  shows "floorLog2 (of_int n) = bitlen n - 1"
proof -
  from assms have b: "1 \<le> bitlen n" by (auto simp: bitlen_alt_def)
  from bitlen_bounds [OF assms] have "(2::int) ^ nat (bitlen n - 1) \<le> n" ..
  then have "(of_int (2 ^ nat (bitlen n - 1)) :: rat) \<le> of_int n"
    by (simp only: of_int_le_iff)
  with b have "pow2 (bitlen n - 1) \<le> of_int n"
    by (simp add: pow2_def)
  moreover have "bitlen 1 = 1" by (simp add: bitlen_alt_def)
  ultimately show ?thesis by (simp add: floorLog2_def)
qed

lemma round64_of_int:
  assumes "0 < n" and "n < 2 ^ 53"
  shows "round64 neg (of_int n) = Finite (of_int n)"
proof -
  define e where "e = bitlen n - 1"
  from assms(1) have e0: "0 \<le> e" by (auto simp: e_def bitlen_alt_def)
  from assms have "bitlen n \<le> 53" by (simp add: bitlen_le_iff_power)
  then have e52: "e \<le> 52" by (simp add: e_def)
  have fl: "floorLog2 \<bar>of_int n\<bar> = e"
    using assms(1) floorLog2_of_int [OF assms(1)] by (simp add: e_def)
  have p: "pow2 (e - 52) = 1 / 2 ^ nat (52 - e)"
    using e52 by (cases "e = 52") (simp_all add: pow2_def)
  have q: "\<bar>of_int n :: rat\<bar> / pow2 (e - 52) = of_int (n * 2 ^ nat (52 - e))"
    using assms(1) by (simp add: p)
  have r: "roundHalfEven (\<bar>of_int n :: rat\<bar> / pow2 (e - 52)) = n * 2 ^ nat (52 - e)"
    unfolding q by (rule roundHalfEven_of_int)
  have nz: "n * 2 ^ nat (52 - e) \<noteq> 0" using assms(1) by simp
  have inv: "(of_int (n * 2 ^ nat (52 - e)) :: rat) * pow2 (e - 52) = of_int n"
    by (simp add: p)
  from assms(1) have x: "(of_int n :: rat) \<noteq> 0" "\<not> (of_int n :: rat) < 0" by simp_all
  from e0 e52 have m: "max e (- 1022) = e" "\<not> 1024 \<le> e" "e \<noteq> 1023" by simp_all
  show ?thesis
    unfolding round64_def fl using x m nz
    by (simp only: Let_def r inv if_False simp_thms)
qed

lemma pow2_mono: "a \<le> b \<Longrightarrow> pow2 a \<le> pow2 b"
  by (simp add: pow2_powi power_int_increasing)

lemma pow2_add: "pow2 (a + b) = pow2 a * pow2 b"
  by (simp add: pow2_powi power_int_add)

lemma roundHalfEven_error: "\<bar>of_int (roundHalfEven y) - y\<bar> \<le> 1 / 2"
proof -
  define r where "r = y - of_int \<lfloor>y\<rfloor>"
  have r: "0 \<le> r" "r < 1" unfolding r_def by linarith+
  have y: "y = of_int \<lfloor>y\<rfloor> + r" by (simp add: r_def)
  consider "r < 1 / 2" | "1 / 2 < r" | "r = 1 / 2" by linarith
  then show ?thesis
  proof cases
    case 1
    then have "roundHalfEven y = \<lfloor>y\<rfloor>"
      by (simp add: roundHalfEven_def Let_def r_def)
    then have "of_int (roundHalfEven y) - y = - r" by (simp add: r_def)
    with 1 r show ?thesis by simp
  next
    case 2
    then have "roundHalfEven y = \<lfloor>y\<rfloor> + 1"
      by (simp add: roundHalfEven_def Let_def r_def)
    then have "of_int (roundHalfEven y) - y = 1 - r" by (simp add: r_def)
    with 2 r show ?thesis by simp
  next
    case 3
    then have "roundHalfEven y = \<lfloor>y\<rfloor> \<or> roundHalfEven y = \<lfloor>y\<rfloor> + 1"
      by (simp add: roundHalfEven_def Let_def r_def)
    then have "of_int (roundHalfEven y) - y = - r \<or> of_int (roundHalfEven y) - y = 1 - r"
      by (auto simp: r_def)
    with 3 show ?thesis by auto
  qed
qed

lemma round64_normal:
  assumes lo: "pow2 (- 1022) \<le> \<bar>x\<bar>" and hi: "\<bar>x\<bar> < pow2 1023"
  shows "\<exists>r. round64 neg x = Finite r \<and> \<bar>r - x\<bar> \<le> \<bar>x\<bar> / 2 ^ 53"
proof -
  have xpos: "0 < \<bar>x\<bar>" using lo pow2_pos [of "- 1022"] by linarith
  then have x0: "x \<noteq> 0" by simp
  define e where "e = floorLog2 \<bar>x\<bar>"
  from floorLog2_bounds [OF xpos]
  have b: "pow2 e \<le> \<bar>x\<bar>" "\<bar>x\<bar> < pow2 (e + 1)" by (simp_all add: e_def)
  have e_lo: "- 1022 \<le> e"
  proof (rule ccontr)
    assume "\<not> - 1022 \<le> e"
    then have "e + 1 \<le> - 1022" by simp
    from pow2_mono [OF this] b(2) lo show False by linarith
  qed
  have e_hi: "e \<le> 1022"
  proof (rule ccontr)
    assume "\<not> e \<le> 1022"
    then have "1023 \<le> e" by simp
    from pow2_mono [OF this] b(1) hi show False by linarith
  qed
  define q where "q = pow2 (e - 52)"
  have qpos: "0 < q" by (simp add: q_def pow2_pos)
  define n where "n = roundHalfEven (\<bar>x\<bar> / q)"
  have "pow2 (52 + (e - 52)) = pow2 52 * pow2 (e - 52)"
    by (rule pow2_add)
  then have pe: "pow2 e = 2 ^ 52 * q"
    by (simp add: q_def) (simp add: pow2_def)
  have err: "\<bar>of_int n - \<bar>x\<bar> / q\<bar> \<le> 1 / 2"
    unfolding n_def by (rule roundHalfEven_error)
  have big: "2 ^ 52 \<le> \<bar>x\<bar> / q"
    using b(1) qpos by (simp add: pe pos_le_divide_eq)
  have "\<bar>x\<bar> / q - 1 / 2 \<le> of_int n" using err by linarith
  moreover have "(1::rat) \<le> 2 ^ 52 - 1 / 2" by simp
  ultimately have "(1::rat) \<le> of_int n" using big by linarith
  then have npos: "0 < n" by linarith
  have m: "max e (- 1022) = e" using e_lo by simp
  define r where "r = (if x < 0 then - (of_int n * q) else of_int n * q)"
  have res: "round64 neg x = Finite r"
    unfolding round64_def Let_def e_def [symmetric] m q_def [symmetric] n_def [symmetric]
    using x0 e_hi npos by (simp add: r_def)
  have "r - x = of_int n * q - \<bar>x\<bar> \<or> r - x = - (of_int n * q - \<bar>x\<bar>)"
    by (cases "x < 0") (simp_all add: r_def)
  then have "\<bar>r - x\<bar> = \<bar>of_int n * q - \<bar>x\<bar>\<bar>"
    by (metis abs_minus_cancel)
  also have "of_int n * q - \<bar>x\<bar> = (of_int n - \<bar>x\<bar> / q) * q"
    using qpos by (simp add: left_diff_distrib)
  also have "\<bar>(of_int n - \<bar>x\<bar> / q) * q\<bar> = \<bar>of_int n - \<bar>x\<bar> / q\<bar> * q"
    using qpos by (simp only: abs_mult abs_of_pos)
  also have "\<dots> \<le> 1 / 2 * q"
    using err qpos by (intro mult_right_mono) simp_all
  also have "\<dots> = pow2 e / 2 ^ 53"
    by (simp add: pe)
  also have "\<dots> \<le> \<bar>x\<bar> / 2 ^ 53"
    using b(1) by (intro divide_right_mono) simp_all
  finally have "\<bar>r - x\<bar> \<le> \<bar>x\<bar> / 2 ^ 53" .
  with res show ?thesis by blast
qed

section \<open>The render controller: painting, cursor and interaction\<close>

lemma round64_in_range:
  assumes "1 / 2048 \<le> \<bar>x\<bar>" and "\<bar>x\<bar> \<le> 2 ^ 42"
  shows "\<exists>r. round64 neg x = Finite r \<and> \<bar>r - x\<bar> \<le> \<bar>x\<bar> / 2 ^ 53"
proof (rule round64_normal)
  have "pow2 (- 1022) \<le> pow2 (- 11)" by (rule pow2_mono) simp
  also have "\<dots> = 1 / 2048" by (simp add: pow2_def)
  finally show "pow2 (- 1022) \<le> \<bar>x\<bar>" using assms(1) by simp
  have "\<bar>x\<bar> < pow2 43" using assms(2) by (simp add: pow2_def)
  also have "\<dots> \<le> pow2 1023" by (rule pow2_mono) simp
  finally show "\<bar>x\<bar> < pow2 1023" .
qed

lemma scaleCoord_Finite:
  "scaleCoord (Finite v) (Some (Finite s))
     = js_mul (round64 (v < 0) (v / 999)) (Finite s)"
  by (simp add: scaleCoord_def DEEPSEEK_COORD_MAX_def js_div_def isNaN_def)

lemma scaleCoord_near_linear:
  assumes v: "1 \<le> \<bar>v\<bar>" "\<bar>v\<bar> \<le> 10 ^ 6" and s: "1 \<le> \<bar>s\<bar>" "\<bar>s\<bar> \<le> 10 ^ 6"
  shows "\<exists>r. scaleCoord (Finite v) (Some (Finite s)) = Finite r \<and>
           \<bar>r - v / 999 * s\<bar> \<le> \<bar>v / 999 * s\<bar> / 2 ^ 51"
proof -
  define a where "a = v / 999"
  have a: "1 / 999 \<le> \<bar>a\<bar>" "\<bar>a\<bar> \<le> 10 ^ 6 / 999"
    using v by (simp_all add: a_def)
  then have "1 / 2048 \<le> \<bar>a\<bar>" "\<bar>a\<bar> \<le> 2 ^ 42" by simp_all
  from round64_in_range [OF this, of "v < 0"] obtain q where
    q: "round64 (v < 0) a = Finite q" and qe: "\<bar>q - a\<bar> \<le> \<bar>a\<bar> / 2 ^ 53"
    by blast
  have "\<bar>a\<bar> / 2 ^ 53 \<le> \<bar>a\<bar> / 2"
    by (intro divide_left_mono) simp_all
  with qe have h: "\<bar>q - a\<bar> \<le> \<bar>a\<bar> / 2" by linarith
  have q_hi: "\<bar>q\<bar> \<le> 2 * \<bar>a\<bar>" using h by linarith
  have q_lo: "\<bar>a\<bar> / 2 \<le> \<bar>q\<bar>" using h by linarith
  have qs: "\<bar>q * s\<bar> = \<bar>q\<bar> * \<bar>s\<bar>" by (rule abs_mult)
  have "1 / 1998 * 1 \<le> \<bar>q\<bar> * \<bar>s\<bar>"
    using q_lo a(1) s(1) by (intro mult_mono) simp_all
  then have lo: "1 / 2048 \<le> \<bar>q * s\<bar>" by (simp add: qs)
  have "\<bar>q\<bar> * \<bar>s\<bar> \<le> (2 * (10 ^ 6 / 999)) * 10 ^ 6"
    using q_hi a(2) s(2) by (intro mult_mono) simp_all
  then have hi: "\<bar>q * s\<bar> \<le> 2 ^ 42" by (simp add: qs)
  from round64_in_range [OF lo hi, of "isNegative (Finite q) \<noteq> isNegative (Finite s)"]
  obtain r where
    r: "round64 (isNegative (Finite q) \<noteq> isNegative (Finite s)) (q * s) = Finite r"
    and re: "\<bar>r - q * s\<bar> \<le> \<bar>q * s\<bar> / 2 ^ 53"
    by blast
  have res: "scaleCoord (Finite v) (Some (Finite s)) = Finite r"
    unfolding scaleCoord_Finite a_def [symmetric] q
    using r by (simp add: js_mul_def isNaN_def)
  define P where "P = \<bar>a\<bar> * \<bar>s\<bar>"
  have P0: "0 \<le> P" by (simp add: P_def)
  have e1: "\<bar>r - q * s\<bar> \<le> 2 * P / 2 ^ 53"
  proof -
    have "\<bar>q\<bar> * \<bar>s\<bar> \<le> (2 * \<bar>a\<bar>) * \<bar>s\<bar>"
      using q_hi by (intro mult_right_mono) simp_all
    then have "\<bar>q * s\<bar> / 2 ^ 53 \<le> 2 * P / 2 ^ 53"
      by (simp add: qs P_def divide_right_mono)
    with re show ?thesis by linarith
  qed
  have e2: "\<bar>q * s - a * s\<bar> \<le> P / 2 ^ 53"
  proof -
    have "\<bar>q * s - a * s\<bar> = \<bar>q - a\<bar> * \<bar>s\<bar>"
      by (simp add: left_diff_distrib [symmetric] abs_mult)
    also have "\<dots> \<le> (\<bar>a\<bar> / 2 ^ 53) * \<bar>s\<bar>"
      using qe by (intro mult_right_mono) simp_all
    finally show ?thesis by (simp add: P_def)
  qed
  have "\<bar>r - a * s\<bar> \<le> \<bar>r - q * s\<bar> + \<bar>q * s - a * s\<bar>" by linarith
  also have "\<dots> \<le> 2 * P / 2 ^ 53 + P / 2 ^ 53" using e1 e2 by linarith
  also have "\<dots> \<le> P / 2 ^ 51" using P0 by simp
  finally have "\<bar>r - a * s\<bar> \<le> \<bar>a * s\<bar> / 2 ^ 51"
    by (simp add: P_def abs_mult)
  with res show ?thesis unfolding a_def by blast
qed

lemma scaleCoord_boundaries:
  assumes "0 < k" and "k < 2 ^ 53"
  shows "scaleCoord (Finite 0) (Some (Finite (of_int k))) = Finite 0"
    and "scaleCoord (Finite 999) (Some (Finite (of_int k))) = Finite (of_int k)"
proof -
  have z: "round64 False 0 = Finite 0" by (simp add: round64_def signedZero_def)
  from assms(1) show "scaleCoord (Finite 0) (Some (Finite (of_int k))) = Finite 0"
    by (simp add: scaleCoord_Finite z js_mul_def isNaN_def)
  have "round64 False (of_int 1) = Finite (of_int 1)"
    by (rule round64_of_int) simp_all
  then have one: "round64 False 1 = Finite 1" by simp
  from assms(1) round64_of_int [OF assms, of False]
  show "scaleCoord (Finite 999) (Some (Finite (of_int k))) = Finite (of_int k)"
    by (simp add: scaleCoord_Finite one js_mul_def isNaN_def)
qed

lemma sample_rounding:
  "scaleCoord (Finite 500) (Some (Finite 999)) = Finite (500 + 1 / 2 ^ 44)"
  by code_simp

text \<open>
  Claim C4. Every coordinate of a box is mapped on its own, an x coordinate with the
  width and a y coordinate with the height, by \<^verbatim>\<open>(v / 999) * size\<close> as the language
  computes it: the quotient rounded to binary64, then the product rounded to binary64.
  This is the linear map up to rounding: for coordinates and sizes of magnitude between
  1 and a million, inside 0..999 or not, of either sign, the result is finite and differs
  from \<open>v / 999 * size\<close> by at most the fraction \<open>2 ^ - 51\<close> of it. Nothing is clamped
  and no coordinate is rejected. At the boundaries the map is exact: for every integer
  size below \<open>2 ^ 53\<close> the coordinate 0 is mapped to 0 and 999 to the size itself; the
  box (0, 0, 999, 999) on an 800 by 600 target is mapped to (0, 0, 800, 600).
\<close>

theorem coordinate_mapping_linear:
  "scaledX1 (paintBox w h m b) = scaleCoord (x1 b) w
   \<and> scaledY1 (paintBox w h m b) = scaleCoord (y1 b) h
   \<and> scaledX2 (paintBox w h m b) = scaleCoord (x2 b) w
   \<and> scaledY2 (paintBox w h m b) = scaleCoord (y2 b) h
   \<and> canvasRect w h b
     = (scaleCoord (x1 b) w, scaleCoord (y1 b) h, scaleCoord (x2 b) w, scaleCoord (y2 b) h)
   \<and> scaleCoord (Finite v) (Some (Finite s))
     = js_mul (js_div (Finite v) (Finite 999)) (Finite s)
   \<and> (1 \<le> \<bar>v\<bar> \<and> \<bar>v\<bar> \<le> 10 ^ 6 \<and> 1 \<le> \<bar>s\<bar> \<and> \<bar>s\<bar> \<le> 10 ^ 6 \<longrightarrow>
        (\<exists>r. scaleCoord (Finite v) (Some (Finite s)) = Finite r \<and>
             \<bar>r - v / 999 * s\<bar> \<le> \<bar>v / 999 * s\<bar> / 2 ^ 51))
   \<and> (0 < k \<and> k < 2 ^ 53 \<longrightarrow>
        scaleCoord (Finite 0) (Some (Finite (of_int k))) = Finite 0 \<and>
        scaleCoord (Finite 999) (Some (Finite (of_int k))) = Finite (of_int k))
   \<and> canvasRect (Some (Finite 800)) (Some (Finite 600))
        (b\<lparr>x1 := Finite 0, y1 := Finite 0, x2 := Finite 999, y2 := Finite 999\<rparr>)
     = (Finite 0, Finite 0, Finite 800, Finite 600)"
proof (intro conjI impI)
  show "scaleCoord (Finite v) (Some (Finite s))
      = js_mul (js_div (Finite v) (Finite 999)) (Finite s)"
    by (simp add: scaleCoord_def DEEPSEEK_COORD_MAX_def)
next
  assume "1 \<le> \<bar>v\<bar> \<and> \<bar>v\<bar> \<le> 10 ^ 6 \<and> 1 \<le> \<bar>s\<bar> \<and> \<bar>s\<bar> \<le> 10 ^ 6"
  then show "\<exists>r. scaleCoord (Finite v) (Some (Finite s)) = Finite r \<and>
             \<bar>r - v / 999 * s\<bar> \<le> \<bar>v / 999 * s\<bar> / 2 ^ 51"
    by (intro scaleCoord_near_linear) simp_all
next
  assume k: "0 < k \<and> k < 2 ^ 53"
  then show "scaleCoord (Finite 0) (Some (Finite (of_int k))) = Finite 0"
    by (intro scaleCoord_boundaries) simp_all
  from k show "scaleCoord (Finite 999) (Some (Finite (of_int k))) = Finite (of_int k)"
    by (intro scaleCoord_boundaries) simp_all
next
  have "scaleCoord (Finite 999) (Some (Finite (of_int 800))) = Finite (of_int 800)"
    "scaleCoord (Finite 999) (Some (Finite (of_int 600))) = Finite (of_int 600)"
    "scaleCoord (Finite 0) (Some (Finite (of_int 800))) = Finite 0"
    "scaleCoord (Finite 0) (Some (Finite (of_int 600))) = Finite 0"
    by (rule scaleCoord_boundaries; simp)+
  then show "canvasRect (Some (Finite 800)) (Some (Finite 600))
        (b\<lparr>x1 := Finite 0, y1 := Finite 0, x2 := Finite 999, y2 := Finite 999\<rparr>)
     = (Finite 0, Finite 0, Finite 800, Finite 600)"
    by (simp add: canvasRect_def)
qed (simp_all add: paintBox_def canvasRect_def Let_def)

text \<open>
  Claim C7. In mode \<^verbatim>\<open>ocr\<close> (plain-text extraction) a box is clickable iff it is not a
  type label, and the text copied is its content. In mode \<^verbatim>\<open>document\<close> it is clickable
  iff it is a type label, complete, and its text content is not empty, and the text
  copied is the text content. In every other mode it is not clickable. A box with
  \<open>isType\<close>, \<open>isComplete\<close> and text content \<^verbatim>\<open>Body\<close> is not clickable in mode
  \<^verbatim>\<open>ocr\<close> and is clickable, copying \<^verbatim>\<open>Body\<close>, in mode \<^verbatim>\<open>document\<close>.
\<close>

theorem interactivity_by_mode:
  "isClickable (paintBox w h m b) =
     (if m = lit ''ocr'' then \<not> isType b
      else if m = lit ''document'' then isType b \<and> isComplete b \<and> textContent b \<noteq> []
      else False)
   \<and> copyText (paintBox w h m b) =
     (if m = lit ''ocr'' then content b
      else if m = lit ''document'' then textContent b
      else [])
   \<and> \<not> isClickable (paintBox w h (lit ''ocr'')
        (b\<lparr>isType := True, isComplete := True, textContent := lit ''Body''\<rparr>))
   \<and> isClickable (paintBox w h (lit ''document'')
        (b\<lparr>isType := True, isComplete := True, textContent := lit ''Body''\<rparr>))
   \<and> copyText (paintBox w h (lit ''document'')
        (b\<lparr>isType := True, isComplete := True, textContent := lit ''Body''\<rparr>)) = lit ''Body''"
proof -
  have ne: "lit ''ocr'' \<noteq> lit ''document''" "lit ''Body'' \<noteq> []"
    by (simp_all add: lit_def)
  show ?thesis
    using ne by (simp add: paintBox_def Let_def)
qed

text \<open>
  Claim C9. A call of \<^verbatim>\<open>renderBoxes\<close> with a width that is zero or unset, or a height
  that is zero or unset, or an empty list of boxes, returns the state it was given:
  nothing is appended to the overlay and \<^verbatim>\<open>lastBoxCount\<close> is unchanged. The function is
  total, so no error is raised.
\<close>

theorem paint_noop:
  assumes "\<not> truthy w \<or> \<not> truthy h \<or> boxes = []"
  shows "renderBoxes boxes w h m st = st"
  using assms by (auto simp: renderBoxes_def)

lemma renderBoxes_paints:
  assumes "truthy w" "truthy h" "boxes \<noteq> []"
  shows "overlay (renderBoxes boxes w h m st)
           = overlay st @ map (paintBox w h m) (drop (lastBoxCount st) boxes)"
    and "lastBoxCount (renderBoxes boxes w h m st) = length boxes"
  using assms by (simp_all add: renderBoxes_def Let_def)

lemma renderBoxes_growing:
  assumes "truthy w" "truthy h" "prefix xs ys"
    and "lastBoxCount st = length xs" "overlay st = map (paintBox w h m) xs"
  shows "lastBoxCount (renderBoxes ys w h m st) = length ys
    \<and> overlay (renderBoxes ys w h m st) = map (paintBox w h m) ys"
proof (cases "ys = []")
  case True
  with assms show ?thesis by (simp add: renderBoxes_def)
next
  case False
  from assms(3) obtain zs where ys: "ys = xs @ zs" by (auto simp: prefix_def)
  from False assms(1,2,4,5) show ?thesis
    by (simp add: renderBoxes_paints) (simp add: ys)
qed

lemma paint_sequence:
  assumes "truthy w" "truthy h" "sorted_wrt prefix (xs # calls)"
    and "lastBoxCount st = length xs" "overlay st = map (paintBox w h m) xs"
  shows "lastBoxCount (foldl (\<lambda>st bs. renderBoxes bs w h m st) st calls) = length (last (xs # calls))
    \<and> overlay (foldl (\<lambda>st bs. renderBoxes bs w h m st) st calls)
        = map (paintBox w h m) (last (xs # calls))"
  using assms(3-5)
proof (induction calls arbitrary: xs st)
  case Nil
  then show ?case by simp
next
  case (Cons ys calls)
  from Cons.prems(1) have p: "prefix xs ys" and s: "sorted_wrt prefix (ys # calls)"
    by simp_all
  from renderBoxes_growing [OF assms(1,2) p Cons.prems(2,3)]
  have "lastBoxCount (renderBoxes ys w h m st) = length ys"
    and "overlay (renderBoxes ys w h m st) = map (paintBox w h m) ys"
    by simp_all
  from Cons.IH [OF s this] show ?case by simp
qed

lemma paint_count:
  assumes "truthy w" "truthy h" "sorted (map length (xs # calls))"
    and "lastBoxCount st = length xs" "length (overlay st) = length xs"
  shows "length (overlay (foldl (\<lambda>st bs. renderBoxes bs w h m st) st calls))
      = length (last (xs # calls))"
  using assms(3-5)
proof (induction calls arbitrary: xs st)
  case Nil
  then show ?case by simp
next
  case (Cons ys calls)
  from Cons.prems(1) have le: "length xs \<le> length ys" and s: "sorted (map length (ys # calls))"
    by simp_all
  have "lastBoxCount (renderBoxes ys w h m st) = length ys"
    and "length (overlay (renderBoxes ys w h m st)) = length ys"
    using Cons.prems(2,3) le assms(1,2) by (auto simp: renderBoxes_def Let_def)
  from Cons.IH [OF s this] show ?case by simp
qed

text \<open>
  Claim C5. With both dimensions non-zero and a non-empty list of boxes, one call of
  \<^verbatim>\<open>renderBoxes\<close> appends to the overlay the groups of exactly the boxes from index
  \<^verbatim>\<open>lastBoxCount\<close> on, and then sets \<^verbatim>\<open>lastBoxCount\<close> to the length of the list. Hence
  after any sequence of calls from the cleared state, with lists that grow (each list is
  the one before with boxes appended), the overlay holds the groups of the last list, one
  for each box and in order: none twice, none missing. Counting alone needs less: when
  only the lengths of the lists never decrease, the overlay ends with as many groups as
  the last list has boxes.
\<close>

theorem incremental_paint_once:
  assumes "truthy w" and "truthy h"
  shows "(boxes \<noteq> [] \<longrightarrow>
            overlay (renderBoxes boxes w h m st)
              = overlay st @ map (paintBox w h m) (drop (lastBoxCount st) boxes)
            \<and> lastBoxCount (renderBoxes boxes w h m st) = length boxes)
    \<and> (calls \<noteq> [] \<and> sorted_wrt prefix calls \<longrightarrow>
          overlay (foldl (\<lambda>st bs. renderBoxes bs w h m st) clearOverlay calls)
              = map (paintBox w h m) (last calls)
          \<and> lastBoxCount (foldl (\<lambda>st bs. renderBoxes bs w h m st) clearOverlay calls)
              = length (last calls))
    \<and> (calls \<noteq> [] \<and> sorted (map length calls) \<longrightarrow>
          length (overlay (foldl (\<lambda>st bs. renderBoxes bs w h m st) clearOverlay calls))
              = length (last calls))"
proof (intro conjI impI)
  assume "calls \<noteq> [] \<and> sorted_wrt prefix calls"
  then have s: "sorted_wrt prefix ([] # calls)" and ne: "calls \<noteq> []"
    by simp_all
  have "lastBoxCount clearOverlay = length ([] :: box list)"
    and "overlay clearOverlay = map (paintBox w h m) []"
    by (simp_all add: clearOverlay_def)
  from paint_sequence [OF assms s this] ne
  show "overlay (foldl (\<lambda>st bs. renderBoxes bs w h m st) clearOverlay calls)
              = map (paintBox w h m) (last calls)"
    and "lastBoxCount (foldl (\<lambda>st bs. renderBoxes bs w h m st) clearOverlay calls)
              = length (last calls)"
    by simp_all
next
  assume a: "calls \<noteq> [] \<and> sorted (map length calls)"
  then have s: "sorted (map length ([] # calls))" by simp
  have "lastBoxCount clearOverlay = length ([] :: box list)"
    "length (overlay clearOverlay) = length ([] :: box list)"
    by (simp_all add: clearOverlay_def)
  from paint_count [OF assms s this, of m] a
  show "length (overlay (foldl (\<lambda>st bs. renderBoxes bs w h m st) clearOverlay calls))
              = length (last calls)"
    by simp
qed (simp_all add: renderBoxes_paints assms)

section \<open>The decoder: which matches are decoded\<close>

lemma processMatch_fields:
  assumes "processMatch tokenText fl m nx = Some b"
  shows "content b = mcontent m"
    and "x1 b = parseCoords (mcoords m) ! 0" and "y1 b = parseCoords (mcoords m) ! 1"
    and "x2 b = parseCoords (mcoords m) ! 2" and "y2 b = parseCoords (mcoords m) ! 3"
    and "textContent b = (case nx of
            Some n \<Rightarrow> trim (substring tokenText (matchEnd m) (matchStart n))
          | None \<Rightarrow> trim (substringFrom tokenText (matchEnd m)))"
    and "isComplete b \<longleftrightarrow> textContent b \<noteq> [] \<and> (nx \<noteq> None \<or> fl)"
  using assms
  by (auto simp: processMatch_def Let_def split: if_splits option.splits)

lemma processMatches_fields:
  "map (\<lambda>b. (content b, x1 b, y1 b, x2 b, y2 b)) (processMatches tokenText fl ms)
    = map (\<lambda>m. (mcontent m, parseCoords (mcoords m) ! 0, parseCoords (mcoords m) ! 1,
                 parseCoords (mcoords m) ! 2, parseCoords (mcoords m) ! 3))
        (filter hasFourCoords ms)"
proof (induction ms)
  case Nil
  then show ?case by simp
next
  case (Cons m ms)
  show ?case
  proof (cases "hasFourCoords m")
    case True
    then obtain b where
      b: "processMatch tokenText fl m (case ms of [] \<Rightarrow> None | n # _ \<Rightarrow> Some n) = Some b"
      by (rule processMatch_SomeI)
    from processMatch_fields(1-5) [OF b] b True Cons.IH show ?thesis by simp
  next
    case False
    then have
      "processMatch tokenText fl m (case ms of [] \<Rightarrow> None | n # _ \<Rightarrow> Some n) = None"
      by (simp add: processMatch_None_iff)
    with False Cons.IH show ?thesis by simp
  qed
qed

text \<open>
  Claim C3. The coordinate text of a match is split on commas, each piece is trimmed and
  parsed by \<^verbatim>\<open>parseFloat\<close>, and the NaN results are discarded. The boxes decoded are,
  in order, those of exactly the matches for which four numbers remain, with these four
  numbers as coordinates; any other match is left out and the rest of the stream is
  decoded all the same. The decoder is a total function: no input makes it fail. The
  stream \<^verbatim>\<open><|ref|>text<|/ref|><|det|>[[1,2,3]]<|/det|>\<close> decodes to no box.
\<close>

theorem four_numbers_or_dropped:
  "map (\<lambda>b. (content b, x1 b, y1 b, x2 b, y2 b)) (parseBoxesFromTokens s f)
     = map (\<lambda>m. (mcontent m, parseCoords (mcoords m) ! 0, parseCoords (mcoords m) ! 1,
                  parseCoords (mcoords m) ! 2, parseCoords (mcoords m) ! 3))
         (filter (\<lambda>m. length (parseCoords (mcoords m)) = 4) (collectMatches s))
   \<and> length (parseBoxesFromTokens s f)
     = length (filter (\<lambda>m. length (parseCoords (mcoords m)) = 4) (collectMatches s))
   \<and> parseCoords cs
     = filter (\<lambda>n. \<not> isNaN n) (map (\<lambda>t. parseFloat (trim t)) (splitComma cs))
   \<and> parseBoxesFromTokens (lit ''<|ref|>text<|/ref|><|det|>[[1,2,3]]<|/det|>'') False = []
   \<and> parseBoxesFromTokens (lit ''<|ref|>text<|/ref|><|det|>[[1,2,3]]<|/det|>'') True = []"
proof -
  have v: "hasFourCoords = (\<lambda>m. length (parseCoords (mcoords m)) = 4)"
    by (simp add: hasFourCoords_def fun_eq_iff)
  have e1: "parseBoxesFromTokens (lit ''<|ref|>text<|/ref|><|det|>[[1,2,3]]<|/det|>'') False = []"
    by code_simp
  have e2: "parseBoxesFromTokens (lit ''<|ref|>text<|/ref|><|det|>[[1,2,3]]<|/det|>'') True = []"
    by code_simp
  from processMatches_fields [of s f "collectMatches s"]
    length_processMatches [of s f "collectMatches s"] e1 e2
  show ?thesis
    unfolding v by (simp add: parseBoxesFromTokens_def parseCoords_def)
qed

lemma set_trim:
  "set (trim g) \<subseteq> set g"
proof -
  have "set (dropWhile isWhiteSpace (rev (dropWhile isWhiteSpace g)))
      \<subseteq> set (rev (dropWhile isWhiteSpace g))"
    by (auto dest: set_dropWhileD)
  also have "\<dots> \<subseteq> set g"
    by (auto dest: set_dropWhileD)
  finally show ?thesis by (simp add: trim_def)
qed

lemma box_from_match:
  assumes "b \<in> set (processMatches tokenText fl ms)"
  shows "\<exists>m\<in>set ms. hasFourCoords m \<and> content b = mcontent m"
  using assms
proof (induction ms)
  case Nil
  then show ?case by simp
next
  case (Cons m ms)
  show ?case
  proof (cases "processMatch tokenText fl m (case ms of [] \<Rightarrow> None | n # _ \<Rightarrow> Some n)")
    case None
    with Cons show ?thesis by auto
  next
    case (Some a)
    from processMatch_SomeD [OF Some] processMatch_fields(1) [OF Some]
    have "hasFourCoords m" "content a = mcontent m" .
    with Cons Some show ?thesis by auto
  qed
qed

lemma collectMatches_region:
  assumes "m \<in> set (collectMatches s)"
  shows "\<exists>g1 g2. substring s (matchStart m) (matchEnd m) = tagged g1 g2 \<and>
       g1 \<noteq> [] \<and> ch CHR ''<'' \<notin> set g1 \<and> g2 \<noteq> [] \<and> ch CHR '']'' \<notin> set g2 \<and>
       mcontent m = trim g1 \<and> mcoords m = g2"
proof -
  from assms have "m \<in> set (scanFrom 0 s)" by (simp add: collectMatches_def)
  from scanFrom_matches [OF this] obtain g1 g2 where
    t: "take (matchEnd m - matchStart m) (drop (matchStart m) s) = tagged g1 g2" and
    e: "matchEnd m = matchStart m + length (tagged g1 g2)" and
    r: "g1 \<noteq> []" "ch CHR ''<'' \<notin> set g1" "g2 \<noteq> []" "ch CHR '']'' \<notin> set g2"
       "mcontent m = trim g1" "mcoords m = g2"
    by auto
  from e have "substring s (matchStart m) (matchEnd m)
      = take (matchEnd m - matchStart m) (drop (matchStart m) s)"
    by (simp add: substring_def)
  with t r show ?thesis by auto
qed

text \<open>
  Claim C10. Every box decoded comes from a tagged region of the stream whose label text
  is not empty and has no \<^verbatim>\<open><\<close>, and whose coordinate text is not empty and has no
  \<^verbatim>\<open>]\<close>; the content of the box is that label text, trimmed. So no box ever has a
  label with \<^verbatim>\<open><\<close> in it. The stream
  \<^verbatim>\<open><|ref|>a<b<|/ref|><|det|>[[1,2,3,4]]<|/det|>\<close>, with all tags present and four
  numbers, decodes to no box.
\<close>

theorem extraction_needs_wellformed_region:
  "(\<forall>b\<in>set (parseBoxesFromTokens s f). \<exists>m\<in>set (collectMatches s). \<exists>g1 g2.
       substring s (matchStart m) (matchEnd m) = tagged g1 g2 \<and>
       g1 \<noteq> [] \<and> ch CHR ''<'' \<notin> set g1 \<and> g2 \<noteq> [] \<and> ch CHR '']'' \<notin> set g2 \<and>
       content b = trim g1 \<and> mcoords m = g2 \<and> ch CHR ''<'' \<notin> set (content b))
   \<and> parseBoxesFromTokens (lit ''<|ref|>a<b<|/ref|><|det|>[[1,2,3,4]]<|/det|>'') False = []
   \<and> parseBoxesFromTokens (lit ''<|ref|>a<b<|/ref|><|det|>[[1,2,3,4]]<|/det|>'') True = []"
proof (intro conjI)
  show "\<forall>b\<in>set (parseBoxesFromTokens s f). \<exists>m\<in>set (collectMatches s). \<exists>g1 g2.
       substring s (matchStart m) (matchEnd m) = tagged g1 g2 \<and>
       g1 \<noteq> [] \<and> ch CHR ''<'' \<notin> set g1 \<and> g2 \<noteq> [] \<and> ch CHR '']'' \<notin> set g2 \<and>
       content b = trim g1 \<and> mcoords m = g2 \<and> ch CHR ''<'' \<notin> set (content b)"
  proof
    fix b
    assume "b \<in> set (parseBoxesFromTokens s f)"
    then have "b \<in> set (processMatches s f (collectMatches s))"
      by (simp add: parseBoxesFromTokens_def)
    from box_from_match [OF this] obtain m where
      m: "m \<in> set (collectMatches s)" and c: "content b = mcontent m"
      by blast
    from collectMatches_region [OF m] obtain g1 g2 where
      r: "substring s (matchStart m) (matchEnd m) = tagged g1 g2"
        "g1 \<noteq> []" "ch CHR ''<'' \<notin> set g1" "g2 \<noteq> []" "ch CHR '']'' \<notin> set g2"
        "mcontent m = trim g1" "mcoords m = g2"
      by blast
    from r(3) set_trim [of g1] have "ch CHR ''<'' \<notin> set (trim g1)" by blast
    with m c r show "\<exists>m\<in>set (collectMatches s). \<exists>g1 g2.
       substring s (matchStart m) (matchEnd m) = tagged g1 g2 \<and>
       g1 \<noteq> [] \<and> ch CHR ''<'' \<notin> set g1 \<and> g2 \<noteq> [] \<and> ch CHR '']'' \<notin> set g2 \<and>
       content b = trim g1 \<and> mcoords m = g2 \<and> ch CHR ''<'' \<notin> set (content b)"
      by (intro bexI [of _ m] exI [of _ g1] exI [of _ g2]) simp_all
  qed
next
  show "parseBoxesFromTokens (lit ''<|ref|>a<b<|/ref|><|det|>[[1,2,3,4]]<|/det|>'') False = []"
    by code_simp
next
  show "parseBoxesFromTokens (lit ''<|ref|>a<b<|/ref|><|det|>[[1,2,3,4]]<|/det|>'') True = []"
    by code_simp
qed

section \<open>The decoder and the cursor over a growing stream\<close>

lemma substring_append:
  assumes "a \<le> length s" and "b \<le> length s"
  shows "substring (s @ t) a b = substring s a b"
  using assms by (simp add: substring_def)

lemma processMatch_inner:
  assumes "matchEnd m \<le> length s" and "matchStart n \<le> length s"
  shows "processMatch (s @ t) f2 m (Some n) = processMatch s f1 m (Some n)"
  using assms by (simp add: processMatch_def Let_def substring_append)

lemma processMatch_stable:
  assumes "processMatch s f1 m nx = Some a" and "processMatch s' f2 m nx' = Some b"
  shows "stableFields a = stableFields b"
  using assms by (auto simp: processMatch_def Let_def stableFields_def split: if_splits)

lemma processMatches_growth:
  assumes "\<And>m. m \<in> set ms \<Longrightarrow> matchStart m \<le> length s \<and> matchEnd m \<le> length s"
  shows "prefix (butlast (processMatches s f1 ms)) (processMatches (s @ t) f2 (ms @ ms'))
    \<and> prefix (map stableFields (processMatches s f1 ms))
         (map stableFields (processMatches (s @ t) f2 (ms @ ms')))"
  using assms
proof (induction ms)
  case Nil
  then show ?case by simp
next
  case (Cons m ms)
  have ih: "prefix (butlast (processMatches s f1 ms)) (processMatches (s @ t) f2 (ms @ ms'))"
    "prefix (map stableFields (processMatches s f1 ms))
       (map stableFields (processMatches (s @ t) f2 (ms @ ms')))"
    using Cons.IH Cons.prems by simp_all
  show ?case
  proof (cases ms)
    case Nil
    show ?thesis
    proof (cases "hasFourCoords m")
      case True
      obtain a where a: "processMatch s f1 m None = Some a"
        using True by (rule processMatch_SomeI)
      obtain b where b: "processMatch (s @ t) f2 m (case ms' of [] \<Rightarrow> None | n # _ \<Rightarrow> Some n) = Some b"
        using True by (rule processMatch_SomeI)
      from processMatch_stable [OF a b] a b Nil show ?thesis by simp
    next
      case False
      then have "processMatch s f1 m None = None"
        "processMatch (s @ t) f2 m (case ms' of [] \<Rightarrow> None | n # _ \<Rightarrow> Some n) = None"
        by (simp_all add: processMatch_None_iff)
      with Nil show ?thesis by simp
    qed
  next
    case (Cons n ns)
    from Cons Cons.prems [of m] Cons.prems [of n]
    have "matchEnd m \<le> length s" "matchStart n \<le> length s" by simp_all
    from processMatch_inner [OF this]
    have eq: "processMatch (s @ t) f2 m (Some n) = processMatch s f1 m (Some n)" .
    show ?thesis
    proof (cases "processMatch s f1 m (Some n)")
      case None
      with eq Cons ih show ?thesis by simp
    next
      case (Some a)
      with eq Cons ih show ?thesis by simp
    qed
  qed
qed

lemma collectMatches_bounds:
  assumes "m \<in> set (collectMatches s)"
  shows "matchStart m \<le> length s \<and> matchEnd m \<le> length s"
proof -
  from assms have "m \<in> set (scanFrom 0 s)" by (simp add: collectMatches_def)
  from scanFrom_matches [OF this] show ?thesis by auto
qed


text \<open>
  Claim C8. Let the stream \<open>s\<close> grow to \<open>s @ t\<close>, with any two values of the completion
  flag. Every box decoded from \<open>s\<close> but the last stands unchanged, at the same index, in
  the decode of \<open>s @ t\<close>; and the last box of the decode of \<open>s\<close> stands there too with
  all its fields unchanged except \<open>textContent\<close> and \<open>isComplete\<close>. New boxes only
  follow.
\<close>

theorem decode_monotone_under_growth:
  "prefix (butlast (parseBoxesFromTokens s f1)) (parseBoxesFromTokens (s @ t) f2)
    \<and> prefix (map stableFields (parseBoxesFromTokens s f1))
         (map stableFields (parseBoxesFromTokens (s @ t) f2))"
proof -
  from scanFrom_append [of 0 s t] obtain ms' where
    "collectMatches (s @ t) = collectMatches s @ ms'"
    by (auto simp: prefix_def collectMatches_def)
  with processMatches_growth [of "collectMatches s" s f1 t f2 ms', OF collectMatches_bounds]
  show ?thesis by (simp add: parseBoxesFromTokens_def)
qed






section \<open>Text content and completion of a box\<close>

lemma collectMatches_next:
  assumes "collectMatches s = pre @ m # n # post"
  shows "matchEnd m \<le> matchStart n"
proof -
  from scanFrom_ordered [of 0 s] assms
  have "sorted_wrt (\<lambda>m n. matchEnd m \<le> matchStart n) (pre @ m # n # post)"
    by (simp add: collectMatches_def)
  then show ?thesis by (simp add: sorted_wrt_append)
qed

lemma parseBoxes_nth:
  assumes "i < length (parseBoxesFromTokens s f)"
  obtains pre m post where "collectMatches s = pre @ m # post"
    and "i = length (filter hasFourCoords pre)"
    and "processMatch s f m (case post of [] \<Rightarrow> None | n # _ \<Rightarrow> Some n)
           = Some (parseBoxesFromTokens s f ! i)"
  using processMatches_nth [of i s f "collectMatches s"] assms
  unfolding parseBoxesFromTokens_def by blast

text \<open>
  Claim C2, as the code has it. Every decoded box comes from a raw match \<open>m\<close> with four
  numbers; its index among the boxes is the number of such matches before \<open>m\<close>. Its
  \<open>textContent\<close> is the stream from the end offset of \<open>m\<close> to the start offset of the
  next raw match (whether or not that match is decoded), or to the end of the stream when
  \<open>m\<close> is the last raw match, with the white space at both ends trimmed off.
\<close>

theorem trailing_text_is_trimmed_gap:
  "\<forall>i<length (parseBoxesFromTokens s f). \<exists>pre m post.
      collectMatches s = pre @ m # post \<and> i = length (filter hasFourCoords pre) \<and>
      hasFourCoords m \<and> content (parseBoxesFromTokens s f ! i) = mcontent m \<and>
      textContent (parseBoxesFromTokens s f ! i) =
        (case post of
           [] \<Rightarrow> trim (drop (matchEnd m) s)
         | n # _ \<Rightarrow> trim (take (matchStart n - matchEnd m) (drop (matchEnd m) s)))"
proof (intro allI impI)
  fix i
  assume "i < length (parseBoxesFromTokens s f)"
  then obtain pre m post where
    c: "collectMatches s = pre @ m # post" and i: "i = length (filter hasFourCoords pre)" and
    p: "processMatch s f m (case post of [] \<Rightarrow> None | n # _ \<Rightarrow> Some n)
           = Some (parseBoxesFromTokens s f ! i)"
    by (rule parseBoxes_nth)
  have t: "textContent (parseBoxesFromTokens s f ! i) =
        (case post of
           [] \<Rightarrow> trim (drop (matchEnd m) s)
         | n # _ \<Rightarrow> trim (take (matchStart n - matchEnd m) (drop (matchEnd m) s)))"
  proof (cases post)
    case Nil
    with processMatch_fields(6) [OF p] show ?thesis by (simp add: substringFrom_def)
  next
    case (Cons n post')
    with c have "matchEnd m \<le> matchStart n" by (auto intro: collectMatches_next)
    with Cons processMatch_fields(6) [OF p] show ?thesis by (simp add: substring_def)
  qed
  from processMatch_SomeD [OF p] processMatch_fields(1) [OF p] c i t
  show "\<exists>pre m post.
      collectMatches s = pre @ m # post \<and> i = length (filter hasFourCoords pre) \<and>
      hasFourCoords m \<and> content (parseBoxesFromTokens s f ! i) = mcontent m \<and>
      textContent (parseBoxesFromTokens s f ! i) =
        (case post of
           [] \<Rightarrow> trim (drop (matchEnd m) s)
         | n # _ \<Rightarrow> trim (take (matchStart n - matchEnd m) (drop (matchEnd m) s)))"
    by blast
qed

lemma processMatches_last:
  assumes "processMatches tokenText fl ms \<noteq> []"
  shows "\<exists>pre m post. ms = pre @ m # post \<and> (\<forall>k\<in>set post. \<not> hasFourCoords k) \<and>
     processMatch tokenText fl m (case post of [] \<Rightarrow> None | n # _ \<Rightarrow> Some n)
       = Some (last (processMatches tokenText fl ms))"
  using assms
proof (induction ms)
  case Nil
  then show ?case by simp
next
  case (Cons m ms)
  show ?case
  proof (cases "processMatches tokenText fl ms = []")
    case True
    then have "length (filter hasFourCoords ms) = 0"
      using length_processMatches [of tokenText fl ms] by simp
    then have inv: "\<forall>k\<in>set ms. \<not> hasFourCoords k"
      by (simp add: filter_empty_conv)
    from Cons.prems True obtain b where
      b: "processMatch tokenText fl m (case ms of [] \<Rightarrow> None | n # _ \<Rightarrow> Some n) = Some b"
      by (auto split: option.splits)
    with True have "last (processMatches tokenText fl (m # ms)) = b" by simp
    with b inv have "m # ms = [] @ m # ms \<and> (\<forall>k\<in>set ms. \<not> hasFourCoords k) \<and>
       processMatch tokenText fl m (case ms of [] \<Rightarrow> None | n # _ \<Rightarrow> Some n)
         = Some (last (processMatches tokenText fl (m # ms)))"
      by simp
    then show ?thesis by blast
  next
    case False
    from Cons.IH [OF False] obtain pre k post where
      r: "ms = pre @ k # post" "\<forall>j\<in>set post. \<not> hasFourCoords j"
        "processMatch tokenText fl k (case post of [] \<Rightarrow> None | n # _ \<Rightarrow> Some n)
           = Some (last (processMatches tokenText fl ms))"
      by blast
    from False have "last (processMatches tokenText fl (m # ms)) = last (processMatches tokenText fl ms)"
      by (simp split: option.splits)
    with r have "m # ms = (m # pre) @ k # post \<and> (\<forall>j\<in>set post. \<not> hasFourCoords j) \<and>
       processMatch tokenText fl k (case post of [] \<Rightarrow> None | n # _ \<Rightarrow> Some n)
         = Some (last (processMatches tokenText fl (m # ms)))"
      by simp
    then show ?thesis by blast
  qed
qed

text \<open>
  Claim C1, as the code has it. A decoded box that is not the last of the sequence is
  complete iff its (trimmed) text content is not empty. The last box is complete iff its
  text content is not empty and either the stream is declared complete or its raw match
  is not the last raw match of the stream, which is the case when the last raw match has
  no four numbers and is left out. So a box decoded from the last raw match is never
  complete while the stream is still growing.
\<close>

theorem completion_by_match_position:
  "(\<forall>i. Suc i < length (parseBoxesFromTokens s f) \<longrightarrow>
      (isComplete (parseBoxesFromTokens s f ! i)
         \<longleftrightarrow> textContent (parseBoxesFromTokens s f ! i) \<noteq> []))
   \<and> (parseBoxesFromTokens s f \<noteq> [] \<longrightarrow>
      (isComplete (last (parseBoxesFromTokens s f))
         \<longleftrightarrow> textContent (last (parseBoxesFromTokens s f)) \<noteq> []
             \<and> (f \<or> \<not> hasFourCoords (last (collectMatches s)))))"
proof (intro conjI allI impI)
  fix i
  assume a: "Suc i < length (parseBoxesFromTokens s f)"
  then have "i < length (parseBoxesFromTokens s f)" by simp
  then obtain pre m post where
    c: "collectMatches s = pre @ m # post" and i: "i = length (filter hasFourCoords pre)" and
    p: "processMatch s f m (case post of [] \<Rightarrow> None | n # _ \<Rightarrow> Some n)
           = Some (parseBoxesFromTokens s f ! i)"
    by (rule parseBoxes_nth)
  from processMatch_SomeD [OF p] have "hasFourCoords m" .
  with c i have "length (parseBoxesFromTokens s f) = Suc i + length (filter hasFourCoords post)"
    by (simp add: parseBoxesFromTokens_def length_processMatches)
  with a have "post \<noteq> []" by auto
  with processMatch_fields(7) [OF p]
  show "isComplete (parseBoxesFromTokens s f ! i)
         \<longleftrightarrow> textContent (parseBoxesFromTokens s f ! i) \<noteq> []"
    by (cases post) simp_all
next
  assume "parseBoxesFromTokens s f \<noteq> []"
  then have "processMatches s f (collectMatches s) \<noteq> []"
    by (simp add: parseBoxesFromTokens_def)
  from processMatches_last [OF this] obtain pre m post where
    c: "collectMatches s = pre @ m # post" and inv: "\<forall>k\<in>set post. \<not> hasFourCoords k" and
    p: "processMatch s f m (case post of [] \<Rightarrow> None | n # _ \<Rightarrow> Some n)
           = Some (last (parseBoxesFromTokens s f))"
    unfolding parseBoxesFromTokens_def by blast
  from processMatch_SomeD [OF p] have v: "hasFourCoords m" .
  show "isComplete (last (parseBoxesFromTokens s f))
         \<longleftrightarrow> textContent (last (parseBoxesFromTokens s f)) \<noteq> []
             \<and> (f \<or> \<not> hasFourCoords (last (collectMatches s)))"
  proof (cases post)
    case Nil
    with c v have "hasFourCoords (last (collectMatches s))" by simp
    with Nil processMatch_fields(7) [OF p] show ?thesis by simp
  next
    case (Cons n post')
    with c have "last (collectMatches s) = last post" by simp
    moreover from Cons have "last post \<in> set post" by simp
    ultimately have "\<not> hasFourCoords (last (collectMatches s))" using inv by simp
    with Cons processMatch_fields(7) [OF p] show ?thesis by simp
  qed
qed

section \<open>Instances\<close>

text \<open>
  The theorems above at concrete streams, and the streams at which the claims C1 and C2
  as first stated do not hold. In the first stream below the second region has three
  numbers only, so the one box decoded is the last of the sequence although its match is
  not the last: it is complete while the stream is still growing.
\<close>

theorem last_box_complete_while_streaming:
  "length (parseBoxesFromTokens
      (lit ''<|ref|>title<|/ref|><|det|>[[0,0,10,10]]<|/det|>Hello<|ref|>text<|/ref|><|det|>[[1,2,3]]<|/det|>'')
      False) = 1
   \<and> isComplete (last (parseBoxesFromTokens
      (lit ''<|ref|>title<|/ref|><|det|>[[0,0,10,10]]<|/det|>Hello<|ref|>text<|/ref|><|det|>[[1,2,3]]<|/det|>'')
      False))
   \<and> \<not> (isComplete (last (parseBoxesFromTokens
      (lit ''<|ref|>title<|/ref|><|det|>[[0,0,10,10]]<|/det|>Hello<|ref|>text<|/ref|><|det|>[[1,2,3]]<|/det|>'')
      False))
      \<longleftrightarrow> False \<and> textContent (last (parseBoxesFromTokens
      (lit ''<|ref|>title<|/ref|><|det|>[[0,0,10,10]]<|/det|>Hello<|ref|>text<|/ref|><|det|>[[1,2,3]]<|/det|>'')
      False)) \<noteq> [])"
  by code_simp

theorem completion_by_match_position_witness:
  "parseBoxesFromTokens (lit ''<|ref|>title<|/ref|><|det|>[[0,0,10,10]]<|/det|>Hello'') False \<noteq> []
   \<and> \<not> isComplete (last (parseBoxesFromTokens
         (lit ''<|ref|>title<|/ref|><|det|>[[0,0,10,10]]<|/det|>Hello'') False))
   \<and> isComplete (last (parseBoxesFromTokens
         (lit ''<|ref|>title<|/ref|><|det|>[[0,0,10,10]]<|/det|>Hello'') True))"
proof -
  have n1: "parseBoxesFromTokens (lit ''<|ref|>title<|/ref|><|det|>[[0,0,10,10]]<|/det|>Hello'') False \<noteq> []"
    by code_simp
  have n2: "parseBoxesFromTokens (lit ''<|ref|>title<|/ref|><|det|>[[0,0,10,10]]<|/det|>Hello'') True \<noteq> []"
    by code_simp
  have v: "hasFourCoords (last (collectMatches (lit ''<|ref|>title<|/ref|><|det|>[[0,0,10,10]]<|/det|>Hello'')))"
    by code_simp
  have t: "textContent (last (parseBoxesFromTokens
      (lit ''<|ref|>title<|/ref|><|det|>[[0,0,10,10]]<|/det|>Hello'') True)) \<noteq> []"
    by code_simp
  from completion_by_match_position
    [of "lit ''<|ref|>title<|/ref|><|det|>[[0,0,10,10]]<|/det|>Hello''" False]
    completion_by_match_position
    [of "lit ''<|ref|>title<|/ref|><|det|>[[0,0,10,10]]<|/det|>Hello''" True]
    n1 n2 v t
  show ?thesis by simp
qed

theorem trailing_text_not_raw_substring:
  "textContent (parseBoxesFromTokens
       (lit ''<|ref|>title<|/ref|><|det|>[[0,0,10,10]]<|/det|> Hello'') True ! 0)
     \<noteq> substring (lit ''<|ref|>title<|/ref|><|det|>[[0,0,10,10]]<|/det|> Hello'')
         (matchEnd (collectMatches (lit ''<|ref|>title<|/ref|><|det|>[[0,0,10,10]]<|/det|> Hello'') ! 0))
         (length (lit ''<|ref|>title<|/ref|><|det|>[[0,0,10,10]]<|/det|> Hello''))
   \<and> length (parseBoxesFromTokens
       (lit ''<|ref|>title<|/ref|><|det|>[[0,0,10,10]]<|/det|>Hello<|ref|>text<|/ref|><|det|>[[1,2,3]]<|/det|>'')
       True) = 1
   \<and> textContent (parseBoxesFromTokens
       (lit ''<|ref|>title<|/ref|><|det|>[[0,0,10,10]]<|/det|>Hello<|ref|>text<|/ref|><|det|>[[1,2,3]]<|/det|>'')
       True ! 0)
     \<noteq> substring
         (lit ''<|ref|>title<|/ref|><|det|>[[0,0,10,10]]<|/det|>Hello<|ref|>text<|/ref|><|det|>[[1,2,3]]<|/det|>'')
         (matchEnd (collectMatches
           (lit ''<|ref|>title<|/ref|><|det|>[[0,0,10,10]]<|/det|>Hello<|ref|>text<|/ref|><|det|>[[1,2,3]]<|/det|>'') ! 0))
         (length
           (lit ''<|ref|>title<|/ref|><|det|>[[0,0,10,10]]<|/det|>Hello<|ref|>text<|/ref|><|det|>[[1,2,3]]<|/det|>''))"
  by code_simp

theorem trailing_text_is_trimmed_gap_witness:
  "0 < length (parseBoxesFromTokens
      (lit ''<|ref|>title<|/ref|><|det|>[[0,0,10,10]]<|/det|> Hello <|ref|>text<|/ref|><|det|>[[1,2,3,4]]<|/det|> World'')
      True)
   \<and> textContent (parseBoxesFromTokens
      (lit ''<|ref|>title<|/ref|><|det|>[[0,0,10,10]]<|/det|> Hello <|ref|>text<|/ref|><|det|>[[1,2,3,4]]<|/det|> World'')
      True ! 0) = lit ''Hello''
   \<and> (\<exists>pre m post.
      collectMatches
        (lit ''<|ref|>title<|/ref|><|det|>[[0,0,10,10]]<|/det|> Hello <|ref|>text<|/ref|><|det|>[[1,2,3,4]]<|/det|> World'')
        = pre @ m # post \<and>
      0 = length (filter hasFourCoords pre) \<and> hasFourCoords m \<and>
      textContent (parseBoxesFromTokens
        (lit ''<|ref|>title<|/ref|><|det|>[[0,0,10,10]]<|/det|> Hello <|ref|>text<|/ref|><|det|>[[1,2,3,4]]<|/det|> World'')
        True ! 0) =
        (case post of
           [] \<Rightarrow> trim (drop (matchEnd m)
             (lit ''<|ref|>title<|/ref|><|det|>[[0,0,10,10]]<|/det|> Hello <|ref|>text<|/ref|><|det|>[[1,2,3,4]]<|/det|> World''))
         | n # _ \<Rightarrow> trim (take (matchStart n - matchEnd m) (drop (matchEnd m)
             (lit ''<|ref|>title<|/ref|><|det|>[[0,0,10,10]]<|/det|> Hello <|ref|>text<|/ref|><|det|>[[1,2,3,4]]<|/det|> World'')))))"
proof -
  have l: "0 < length (parseBoxesFromTokens
      (lit ''<|ref|>title<|/ref|><|det|>[[0,0,10,10]]<|/det|> Hello <|ref|>text<|/ref|><|det|>[[1,2,3,4]]<|/det|> World'')
      True)"
    by code_simp
  have t: "textContent (parseBoxesFromTokens
      (lit ''<|ref|>title<|/ref|><|det|>[[0,0,10,10]]<|/det|> Hello <|ref|>text<|/ref|><|det|>[[1,2,3,4]]<|/det|> World'')
      True ! 0) = lit ''Hello''"
    by code_simp
  from trailing_text_is_trimmed_gap [rule_format, OF l] l t
  show ?thesis by blast
qed

theorem paint_noop_witness:
  "\<not> truthy None
   \<and> renderBoxes (parseBoxesFromTokens (lit ''<|ref|>title<|/ref|><|det|>[[0,0,10,10]]<|/det|>Hello'') True)
       None (Some (Finite 600)) (lit ''document'') (clearOverlay\<lparr>lastBoxCount := 3\<rparr>)
     = clearOverlay\<lparr>lastBoxCount := 3\<rparr>
   \<and> \<not> truthy (Some (Finite 0))
   \<and> renderBoxes (parseBoxesFromTokens (lit ''<|ref|>title<|/ref|><|det|>[[0,0,10,10]]<|/det|>Hello'') True)
       (Some (Finite 800)) (Some (Finite 0)) (lit ''document'') (clearOverlay\<lparr>lastBoxCount := 3\<rparr>)
     = clearOverlay\<lparr>lastBoxCount := 3\<rparr>
   \<and> renderBoxes [] (Some (Finite 800)) (Some (Finite 600)) (lit ''document'')
       (clearOverlay\<lparr>lastBoxCount := 3\<rparr>)
     = clearOverlay\<lparr>lastBoxCount := 3\<rparr>"
  using
    paint_noop [of None "Some (Finite 600)"
      "parseBoxesFromTokens (lit ''<|ref|>title<|/ref|><|det|>[[0,0,10,10]]<|/det|>Hello'') True"
      "lit ''document''" "clearOverlay\<lparr>lastBoxCount := 3\<rparr>"]
    paint_noop [of "Some (Finite 800)" "Some (Finite 0)"
      "parseBoxesFromTokens (lit ''<|ref|>title<|/ref|><|det|>[[0,0,10,10]]<|/det|>Hello'') True"
      "lit ''document''" "clearOverlay\<lparr>lastBoxCount := 3\<rparr>"]
    paint_noop [of "Some (Finite 800)" "Some (Finite 600)" "[]"
      "lit ''document''" "clearOverlay\<lparr>lastBoxCount := 3\<rparr>"]
  by simp

theorem extraction_needs_wellformed_region_witness:
  "parseBoxesFromTokens (lit ''<|ref|>title<|/ref|><|det|>[[0,0,10,10]]<|/det|>Hello'') True \<noteq> []
   \<and> ch CHR ''<'' \<notin> set (content (hd (parseBoxesFromTokens
       (lit ''<|ref|>title<|/ref|><|det|>[[0,0,10,10]]<|/det|>Hello'') True)))"
proof -
  have n: "parseBoxesFromTokens (lit ''<|ref|>title<|/ref|><|det|>[[0,0,10,10]]<|/det|>Hello'') True \<noteq> []"
    by code_simp
  then have "hd (parseBoxesFromTokens (lit ''<|ref|>title<|/ref|><|det|>[[0,0,10,10]]<|/det|>Hello'') True)
      \<in> set (parseBoxesFromTokens (lit ''<|ref|>title<|/ref|><|det|>[[0,0,10,10]]<|/det|>Hello'') True)"
    by (rule hd_in_set)
  with extraction_needs_wellformed_region
    [of "lit ''<|ref|>title<|/ref|><|det|>[[0,0,10,10]]<|/det|>Hello''" True] n
  show ?thesis by blast
qed


theorem incremental_paint_once_witness:
  "truthy (Some (Finite 800)) \<and> truthy (Some (Finite 600))
   \<and> sorted_wrt prefix
       [parseBoxesFromTokens (lit ''<|ref|>title<|/ref|><|det|>[[0,0,10,10]]<|/det|>Hello'') True,
        parseBoxesFromTokens (lit ''<|ref|>title<|/ref|><|det|>[[0,0,10,10]]<|/det|>Hello'') True
          @ parseBoxesFromTokens (lit ''<|ref|>text<|/ref|><|det|>[[5,5,20,20]]<|/det|>Body'') True]
   \<and> overlay (foldl (\<lambda>st bs. renderBoxes bs (Some (Finite 800)) (Some (Finite 600)) (lit ''document'') st)
        clearOverlay
       [parseBoxesFromTokens (lit ''<|ref|>title<|/ref|><|det|>[[0,0,10,10]]<|/det|>Hello'') True,
        parseBoxesFromTokens (lit ''<|ref|>title<|/ref|><|det|>[[0,0,10,10]]<|/det|>Hello'') True
          @ parseBoxesFromTokens (lit ''<|ref|>text<|/ref|><|det|>[[5,5,20,20]]<|/det|>Body'') True])
     = map (paintBox (Some (Finite 800)) (Some (Finite 600)) (lit ''document''))
        (parseBoxesFromTokens (lit ''<|ref|>title<|/ref|><|det|>[[0,0,10,10]]<|/det|>Hello'') True
          @ parseBoxesFromTokens (lit ''<|ref|>text<|/ref|><|det|>[[5,5,20,20]]<|/det|>Body'') True)"
  using incremental_paint_once [of "Some (Finite 800)" "Some (Finite 600)" _
    "lit ''document''" _
    "[parseBoxesFromTokens (lit ''<|ref|>title<|/ref|><|det|>[[0,0,10,10]]<|/det|>Hello'') True,
        parseBoxesFromTokens (lit ''<|ref|>title<|/ref|><|det|>[[0,0,10,10]]<|/det|>Hello'') True
          @ parseBoxesFromTokens (lit ''<|ref|>text<|/ref|><|det|>[[5,5,20,20]]<|/det|>Body'') True]"]
  by simp


theorem coordinate_mapping_linear_witness:
  "(1::rat) \<le> \<bar>500\<bar> \<and> \<bar>500::rat\<bar> \<le> 10 ^ 6 \<and> (1::rat) \<le> \<bar>999\<bar> \<and> \<bar>999::rat\<bar> \<le> 10 ^ 6
   \<and> (\<exists>r. scaleCoord (Finite 500) (Some (Finite 999)) = Finite r \<and>
          \<bar>r - 500 / 999 * 999\<bar> \<le> \<bar>500 / 999 * 999\<bar> / 2 ^ 51)
   \<and> scaleCoord (Finite 500) (Some (Finite 999)) = Finite (500 + 1 / 2 ^ 44)
   \<and> (0::int) < 800 \<and> (800::int) < 2 ^ 53
   \<and> scaleCoord (Finite 0) (Some (Finite 800)) = Finite 0
   \<and> scaleCoord (Finite 999) (Some (Finite 800)) = Finite 800"
proof -
  have e: "scaleCoord (Finite 500) (Some (Finite 999)) = Finite (500 + 1 / 2 ^ 44)"
    by (rule sample_rounding)
  have hv: "(1::rat) \<le> \<bar>500\<bar> \<and> \<bar>500::rat\<bar> \<le> 10 ^ 6 \<and> (1::rat) \<le> \<bar>999\<bar> \<and> \<bar>999::rat\<bar> \<le> 10 ^ 6"
    by simp
  have hk: "(0::int) < 800 \<and> (800::int) < 2 ^ 53"
    by simp
  note t = coordinate_mapping_linear [of None None "[]" _ 500 999 800]
  from t have "(1::rat) \<le> \<bar>500\<bar> \<and> \<bar>500::rat\<bar> \<le> 10 ^ 6 \<and> (1::rat) \<le> \<bar>999\<bar> \<and> \<bar>999::rat\<bar> \<le> 10 ^ 6 \<longrightarrow>
      (\<exists>r. scaleCoord (Finite 500) (Some (Finite 999)) = Finite r \<and>
          \<bar>r - 500 / 999 * 999\<bar> \<le> \<bar>500 / 999 * 999\<bar> / 2 ^ 51)"
    by blast
  with hv have near: "\<exists>r. scaleCoord (Finite 500) (Some (Finite 999)) = Finite r \<and>
          \<bar>r - 500 / 999 * 999\<bar> \<le> \<bar>500 / 999 * 999\<bar> / 2 ^ 51"
    by (rule rev_mp)
  from t have "(0::int) < 800 \<and> (800::int) < 2 ^ 53 \<longrightarrow>
      scaleCoord (Finite 0) (Some (Finite (of_int 800))) = Finite 0 \<and>
      scaleCoord (Finite 999) (Some (Finite (of_int 800))) = Finite (of_int 800)"
    by blast
  with hk have "scaleCoord (Finite 0) (Some (Finite (of_int 800))) = Finite 0 \<and>
      scaleCoord (Finite 999) (Some (Finite (of_int 800))) = Finite (of_int 800)"
    by (rule rev_mp)
  then have edge: "scaleCoord (Finite 0) (Some (Finite 800)) = Finite 0"
    "scaleCoord (Finite 999) (Some (Finite 800)) = Finite 800"
    by simp_all
  from hv near e hk edge show ?thesis by (intro conjI) (erule conjunct1 conjunct2 | assumption | simp)+
qed

end
